theory Spec2Isabelle
  imports Complex_Main "HOL-Library.Product_Lexorder" "HOL-Library.Sublist"
begin

section \<open>Errors and the execution path\<close>

text \<open>
  The exceptions the Python code can raise, as values. \<open>RuntimeError\<close> carries its message.
\<close>

datatype error =
    AssertionError
  | IndexError
  | AttributeError
  | TypeError
  | ValueError
  | RuntimeError string

text \<open>
  \<^verbatim>\<open>exe_path = Namespace(x=[], y=[])\<close>: the two parallel lists of queried inputs and of the
  oracle's answers. The fields are called \<open>exe_x\<close> and \<open>exe_y\<close> here (plain \<open>x\<close> and
  \<open>y\<close> would capture every variable of that name).
\<close>

record ('x, 'y) exe_path =
  exe_x :: "'x list"
  exe_y :: "'y list"

definition empty_path :: "('x, 'y) exe_path" where
  "empty_path = \<lparr>exe_x = [], exe_y = []\<rparr>"

text \<open>\<^verbatim>\<open>exe_path.x.append(x); exe_path.y.append(y)\<close>\<close>

definition append_pair :: "('x, 'y) exe_path \<Rightarrow> 'x \<Rightarrow> 'y \<Rightarrow> ('x, 'y) exe_path" where
  "append_pair ep a b = ep\<lparr>exe_x := exe_x ep @ [a], exe_y := exe_y ep @ [b]\<rparr>"

text \<open>\<^verbatim>\<open>exe_path.x.extend(xs); exe_path.y.extend(ys)\<close>\<close>

definition extend_path :: "('x, 'y) exe_path \<Rightarrow> 'x list \<Rightarrow> 'y list \<Rightarrow> ('x, 'y) exe_path" where
  "extend_path ep as bs = ep\<lparr>exe_x := exe_x ep @ as, exe_y := exe_y ep @ bs\<rparr>"

text \<open>The two properties of a trace that the runs are checked against.\<close>

definition consistent :: "('x, 'y) exe_path \<Rightarrow> bool" where
  "consistent ep = (length (exe_x ep) = length (exe_y ep))"

definition extends :: "('x, 'y) exe_path \<Rightarrow> ('x, 'y) exe_path \<Rightarrow> bool" where
  "extends ep ep' = (prefix (exe_x ep) (exe_x ep') \<and> prefix (exe_y ep) (exe_y ep'))"

section \<open>The base class: the generic run loop\<close>

text \<open>
  \<^verbatim>\<open>Algorithm.run_algorithm_on_f\<close>. The object \<^verbatim>\<open>self\<close> is its parameter bundle, passed in
  and returned: the method is a function from the bundle before the call to the bundle
  after it and the result. The two methods a subclass supplies, \<^verbatim>\<open>get_next_x\<close> and
  \<^verbatim>\<open>get_output_from_exe_path\<close>, are parameters (dynamic dispatch); each reads the bundle
  and may raise. \<open>Inr None\<close> is Python's \<^verbatim>\<open>None\<close>, the completion sentinel. The
  \<^verbatim>\<open>while\<close> loop need not end for an arbitrary \<^verbatim>\<open>get_next_x\<close>: the result \<open>None\<close> of
  \<open>pull_loop\<close> stands for a run that never returns. The oracle \<open>f\<close> is a function: a
  deterministic oracle.
\<close>

partial_function (option) pull_loop ::
  "(('x, 'y) exe_path \<Rightarrow> error + 'x option) \<Rightarrow> ('x \<Rightarrow> 'y) \<Rightarrow> ('x, 'y) exe_path
     \<Rightarrow> (error + ('x, 'y) exe_path) option"
where
  "pull_loop next_x f ep =
     (case next_x ep of
        Inl e \<Rightarrow> Some (Inl e)
      | Inr None \<Rightarrow> Some (Inr ep)
      | Inr (Some a) \<Rightarrow> pull_loop next_x f (append_pair ep a (f a)))"

declare pull_loop.simps [code]

definition run_algorithm_on_f ::
  "('p \<Rightarrow> ('x, 'y) exe_path \<Rightarrow> error + 'x option) \<Rightarrow> ('p \<Rightarrow> ('x, 'y) exe_path \<Rightarrow> error + 'o)
     \<Rightarrow> 'p \<Rightarrow> ('x \<Rightarrow> 'y) \<Rightarrow> 'p \<times> (error + (('x, 'y) exe_path \<times> 'o)) option"
where
  "run_algorithm_on_f next_x get_output self f =
     (self,
      case pull_loop (next_x self) f empty_path of
        None \<Rightarrow> None
      | Some (Inl e) \<Rightarrow> Some (Inl e)
      | Some (Inr ep) \<Rightarrow>
          (case get_output self ep of
             Inl e \<Rightarrow> Some (Inl e)
           | Inr out \<Rightarrow> Some (Inr (ep, out))))"

text \<open>
  \<^verbatim>\<open>Algorithm.get_next_x\<close>, for the variants that keep a list \<^verbatim>\<open>params.x_path\<close>. An
  element of the list may be \<^verbatim>\<open>None\<close>: the method returns it as it is, and the loop takes it
  for the completion sentinel. Reading \<^verbatim>\<open>x_path[len_path]\<close> beyond the end raises
  IndexError.
\<close>

definition get_next_x :: "'x option list \<Rightarrow> ('x, 'y) exe_path \<Rightarrow> error + 'x option" where
  "get_next_x xpath ep =
     (let len_path = length (exe_x ep) in
      if len_path = length xpath then Inr None
      else if len_path < length xpath then Inr (xpath ! len_path)
      else Inl IndexError)"

text \<open>
  The pull loop in the words of the specification: stop on the completion sentinel,
  otherwise apply the oracle to the returned input, append the pair and go on.
\<close>

inductive pull_spec ::
  "(('x, 'y) exe_path \<Rightarrow> error + 'x option) \<Rightarrow> ('x \<Rightarrow> 'y) \<Rightarrow> ('x, 'y) exe_path
     \<Rightarrow> ('x, 'y) exe_path \<Rightarrow> bool"
  for next_query :: "('x, 'y) exe_path \<Rightarrow> error + 'x option" and f :: "'x \<Rightarrow> 'y"
where
  pull_done: "next_query tr = Inr None \<Longrightarrow> pull_spec next_query f tr tr"
| pull_step: "next_query tr = Inr (Some a) \<Longrightarrow>
     pull_spec next_query f (append_pair tr a (f a)) tr' \<Longrightarrow>
     pull_spec next_query f tr tr'"

section \<open>Parameter bundles and the scan variants\<close>

text \<open>
  \<^verbatim>\<open>self.params\<close>, one record per class, extended along the class hierarchy:
  \<^verbatim>\<open>Algorithm.set_params\<close> sets \<^verbatim>\<open>name\<close>, \<^verbatim>\<open>LinearScan\<close> adds \<^verbatim>\<open>x_path\<close>,
  \<^verbatim>\<open>LinearScanRandGap\<close> adds \<^verbatim>\<open>x_path_orig\<close>.
\<close>

record algorithm_params =
  name :: string

record 'x scan_params = algorithm_params +
  x_path :: "'x option list"


text \<open>\<^verbatim>\<open>LinearScan.get_output_from_exe_path\<close>: \<^verbatim>\<open>return exe_path.y\<close>\<close>

definition linear_scan_get_output :: "'p \<Rightarrow> ('x, 'y) exe_path \<Rightarrow> error + 'y list" where
  "linear_scan_get_output self ep = Inr (exe_y ep)"


text \<open>
  \<^verbatim>\<open>np.min(x_path)\<close> and \<^verbatim>\<open>np.max(x_path)\<close> first make an array of the grid: the points
  become its rows. numpy refuses (ValueError) a grid with an element that is not a point
  or with points of different lengths, and the minimum of an array without entries.
\<close>

definition np_array :: "'r list option list \<Rightarrow> error + 'r list list" where
  "np_array grid =
     (if list_all (\<lambda>p. p \<noteq> None) grid
         \<and> list_all (\<lambda>p. length (the p) = length (the (hd grid))) grid
      then Inr (map the grid)
      else Inl ValueError)"

definition np_min :: "'r::linorder list option list \<Rightarrow> error + 'r" where
  "np_min grid =
     (case np_array grid of
        Inl e \<Rightarrow> Inl e
      | Inr rows \<Rightarrow> if concat rows = [] then Inl ValueError else Inr (Min (set (concat rows))))"

definition np_max :: "'r::linorder list option list \<Rightarrow> error + 'r" where
  "np_max grid =
     (case np_array grid of
        Inl e \<Rightarrow> Inl e
      | Inr rows \<Rightarrow> if concat rows = [] then Inl ValueError else Inr (Max (set (concat rows))))"


section \<open>The shortest-path variant\<close>

text \<open>
  A \<^verbatim>\<open>Vertex\<close> is identified with its \<^verbatim>\<open>index\<close>, its position in the fixed list
  \<^verbatim>\<open>params.vertices\<close>; the list keeps, for each vertex, the indices of its \<^verbatim>\<open>neighbors\<close> in
  order. A cost is a Python integer; \<open>Infinity\<close> is \<^verbatim>\<open>float("inf")\<close>.
\<close>

datatype ecost = Finite int | Infinity

fun ecost_less :: "int \<Rightarrow> ecost \<Rightarrow> bool" where
  "ecost_less c Infinity = True"
| "ecost_less c (Finite d) = (c < d)"

text \<open>
  \<^verbatim>\<open>cost_func(u, v, f)\<close> returns \<^verbatim>\<open>(cost, xs, ys)\<close> or raises; \<open>true_cost u v\<close> is the
  value of \<^verbatim>\<open>true_cost(u, v)[0]\<close>, or what it raises.
\<close>

type_synonym ('x, 'y) cost_fn = "nat \<Rightarrow> nat \<Rightarrow> ('x \<Rightarrow> 'y) \<Rightarrow> error + (int \<times> 'x list \<times> 'y list)"

type_synonym true_cost_fn = "nat \<Rightarrow> nat \<Rightarrow> error + int"

record ('x, 'y) dijkstras_params = algorithm_params +
  start :: "nat option"
  goal :: "nat option"
  vertices :: "nat list list option"
  cost_func :: "('x, 'y) cost_fn"
  true_cost :: true_cost_fn

text \<open>
  The bundle handed to the constructor: every field may be absent.
\<close>

record ('x, 'y) dijkstras_bundle =
  given_name :: "string option"
  given_start :: "nat option"
  given_goal :: "nat option"
  given_vertices :: "nat list list option"
  given_cost_func :: "('x, 'y) cost_fn option"
  given_true_cost :: "true_cost_fn option"

text \<open>
  \<^verbatim>\<open>Dijkstras.set_params\<close> through \<^verbatim>\<open>Algorithm.__init__\<close>: each \<^verbatim>\<open>getattr\<close> with its
  default. The default \<^verbatim>\<open>lambda u, v: 0\<close> of \<^verbatim>\<open>cost_func\<close> takes two arguments and is
  called with three, and the default of \<^verbatim>\<open>true_cost\<close> returns a number that is then
  subscripted: each raises TypeError when called.
\<close>

definition dijkstras_set_params :: "('x, 'y) dijkstras_bundle \<Rightarrow> error + ('x, 'y) dijkstras_params" where
  "dijkstras_set_params b =
     Inr \<lparr>name = (case given_name b of None \<Rightarrow> ''Dijkstras'' | Some s \<Rightarrow> s),
          start = (case given_start b of None \<Rightarrow> None | Some v \<Rightarrow> Some v),
          goal = (case given_goal b of None \<Rightarrow> None | Some v \<Rightarrow> Some v),
          vertices = (case given_vertices b of None \<Rightarrow> None | Some vs \<Rightarrow> Some vs),
          cost_func = (case given_cost_func b of None \<Rightarrow> (\<lambda>u v f. Inl TypeError) | Some c \<Rightarrow> c),
          true_cost = (case given_true_cost b of None \<Rightarrow> (\<lambda>u v. Inl TypeError) | Some t \<Rightarrow> t)\<rparr>"

text \<open>The local variables of the nested function \<^verbatim>\<open>dijkstras\<close>, and the shared trace.\<close>

record ('x, 'y) search_state =
  explored :: "bool list"
  min_cost :: "ecost list"
  prev :: "nat option list"
  to_explore :: "(int \<times> nat) list"
  trace :: "('x, 'y) exe_path"

text \<open>
  Modelled from the spec: the order of \<^verbatim>\<open>Vertex\<close> objects, which \<^verbatim>\<open>heapq\<close> needs to
  compare two entries \<^verbatim>\<open>(cost, vertex)\<close> of equal cost, is not in the source file. The
  frontier is ordered ascending by cost; ties are broken here by the smaller index.
  \<^verbatim>\<open>heappop\<close> removes a least entry of the heap and \<^verbatim>\<open>heappush\<close> adds one, so the heap
  is kept as the list of its entries.
\<close>

definition heappop :: "(int \<times> nat) list \<Rightarrow> (int \<times> nat) \<times> (int \<times> nat) list" where
  "heappop h = (let m = Min (set h) in (m, remove1 m h))"

definition heappush :: "(int \<times> nat) list \<Rightarrow> int \<times> nat \<Rightarrow> (int \<times> nat) list" where
  "heappush h e = e # h"

text \<open>
  The nested function \<^verbatim>\<open>distance\<close>: the trace is extended before the assertion is
  checked; a failed assertion leaves no trace to return.
\<close>

definition distance ::
  "('x, 'y) cost_fn \<Rightarrow> ('x \<Rightarrow> 'y) \<Rightarrow> nat \<Rightarrow> nat \<Rightarrow> ('x, 'y) exe_path
     \<Rightarrow> error + (int \<times> ('x, 'y) exe_path)"
where
  "distance cf f u v ep =
     (case cf u v f of
        Inl e \<Rightarrow> Inl e
      | Inr (cost, xs, ys) \<Rightarrow>
          (let ep' = extend_path ep xs ys
           in if cost \<ge> 0 then Inr (cost, ep') else Inl AssertionError))"

text \<open>
  \<^verbatim>\<open>for neighbor in current.neighbors\<close>. The three arrays have the length of
  \<^verbatim>\<open>params.vertices\<close> throughout, so an index is checked against one of them.
\<close>

fun relax_neighbors ::
  "('x, 'y) cost_fn \<Rightarrow> ('x \<Rightarrow> 'y) \<Rightarrow> int \<Rightarrow> nat \<Rightarrow> nat list \<Rightarrow> ('x, 'y) search_state
     \<Rightarrow> error + ('x, 'y) search_state"
where
  "relax_neighbors cf f best_cost current [] st = Inr st"
| "relax_neighbors cf f best_cost current (neighbor # rest) st =
     (case distance cf f current neighbor (trace st) of
        Inl e \<Rightarrow> Inl e
      | Inr (step_cost, ep) \<Rightarrow>
          if neighbor \<ge> length (explored st) then Inl IndexError
          else if \<not> explored st ! neighbor
                  \<and> ecost_less (best_cost + step_cost) (min_cost st ! neighbor)
          then relax_neighbors cf f best_cost current rest
                 (st\<lparr>to_explore := heappush (to_explore st) (best_cost + step_cost, neighbor),
                     min_cost := (min_cost st)[neighbor := Finite (best_cost + step_cost)],
                     prev := (prev st)[neighbor := Some current],
                     trace := ep\<rparr>)
          else relax_neighbors cf f best_cost current rest (st\<lparr>trace := ep\<rparr>))"

text \<open>
  Modelled from the spec: \<^verbatim>\<open>backtrack_indices\<close> of the graph module is not in the source
  file. It follows the predecessor links from the terminal index until there is none and
  returns the indices met in start-to-terminal order. A cycle of links makes it run
  forever: that is the result \<open>None\<close>.
\<close>

partial_function (option) backtrack_loop ::
  "nat option \<Rightarrow> nat option list \<Rightarrow> nat list \<Rightarrow> (error + nat list) option"
where
  "backtrack_loop current prv path =
     (case current of
        None \<Rightarrow> Some (Inr path)
      | Some c \<Rightarrow>
          if c < length prv then backtrack_loop (prv ! c) prv (c # path)
          else Some (Inl IndexError))"

declare backtrack_loop.simps [code]

definition backtrack_indices :: "nat \<Rightarrow> nat option list \<Rightarrow> (error + nat list) option" where
  "backtrack_indices current prv = backtrack_loop (Some current) prv []"

text \<open>
  The nested function \<^verbatim>\<open>true_cost_of_path\<close>: it sums and prints; only a failure of
  \<^verbatim>\<open>true_cost\<close> is seen by the caller.
\<close>

fun true_cost_of_path :: "true_cost_fn \<Rightarrow> int \<Rightarrow> nat list \<Rightarrow> error + int" where
  "true_cost_of_path tc cost (a # b # rest) =
     (case tc a b of
        Inl e \<Rightarrow> Inl e
      | Inr c \<Rightarrow> true_cost_of_path tc (cost + c) (b # rest))"
| "true_cost_of_path tc cost path = Inr cost"

text \<open>
  The \<^verbatim>\<open>while\<close> loop of \<^verbatim>\<open>dijkstras\<close>, from a state of the search. The counter \<^verbatim>\<open>i\<close> and
  the messages printed are left out. The result carries the trace as it is when the
  search returns.
\<close>

function dijkstras_loop ::
  "nat list list \<Rightarrow> ('x, 'y) cost_fn \<Rightarrow> true_cost_fn \<Rightarrow> ('x \<Rightarrow> 'y) \<Rightarrow> nat option
     \<Rightarrow> ('x, 'y) search_state \<Rightarrow> (error + (('x, 'y) exe_path \<times> (ecost \<times> nat list))) option"
where
  "dijkstras_loop vs cf tc f goal_v st =
     (if to_explore st = [] then Some (Inr (trace st, (Infinity, [])))
      else
        (case heappop (to_explore st) of
           ((best_cost, current), rest) \<Rightarrow>
             if current \<ge> length (explored st) then Some (Inl IndexError)
             else if explored st ! current
             then dijkstras_loop vs cf tc f goal_v (st\<lparr>to_explore := rest\<rparr>)
             else
               (case goal_v of
                  None \<Rightarrow> Some (Inl AttributeError)
                | Some g \<Rightarrow>
                    if current = g then
                      (case backtrack_indices current (prev st) of
                         None \<Rightarrow> None
                       | Some (Inl e) \<Rightarrow> Some (Inl e)
                       | Some (Inr idxs) \<Rightarrow>
                           if list_all (\<lambda>i. i < length vs) idxs then
                             (case true_cost_of_path tc 0 idxs of
                                Inl e \<Rightarrow> Some (Inl e)
                              | Inr c \<Rightarrow> Some (Inr (trace st, (Finite best_cost, idxs))))
                           else Some (Inl IndexError))
                    else
                      (case relax_neighbors cf f best_cost current (vs ! current)
                              (st\<lparr>to_explore := rest,
                                  explored := (explored st)[current := True]\<rparr>) of
                         Inl e \<Rightarrow> Some (Inl e)
                       | Inr st' \<Rightarrow> dijkstras_loop vs cf tc f goal_v st'))))"
  by pat_completeness auto

text \<open>
  The nested function \<^verbatim>\<open>dijkstras(start, goal)\<close>: the arrays are sized by
  \<^verbatim>\<open>len(self.params.vertices)\<close> and the frontier holds \<^verbatim>\<open>(0, start)\<close>.
\<close>

definition init_state :: "nat \<Rightarrow> nat \<Rightarrow> ('x, 'y) search_state" where
  "init_state n start_v =
     \<lparr>explored = replicate n False,
      min_cost = replicate n Infinity,
      prev = replicate n None,
      to_explore = [(0, start_v)],
      trace = empty_path\<rparr>"

definition dijkstras ::
  "nat list list \<Rightarrow> ('x, 'y) cost_fn \<Rightarrow> true_cost_fn \<Rightarrow> ('x \<Rightarrow> 'y) \<Rightarrow> nat \<Rightarrow> nat option
     \<Rightarrow> (error + (('x, 'y) exe_path \<times> (ecost \<times> nat list))) option"
where
  "dijkstras vs cf tc f start_v goal_v =
     dijkstras_loop vs cf tc f goal_v (init_state (length vs) start_v)"

text \<open>
  \<^verbatim>\<open>Dijkstras.run_algorithm_on_f\<close>. With \<^verbatim>\<open>vertices\<close> left at \<^verbatim>\<open>None\<close>, \<^verbatim>\<open>len\<close> raises
  TypeError; with \<^verbatim>\<open>start\<close> left at \<^verbatim>\<open>None\<close>, the first entry popped is \<^verbatim>\<open>(0, None)\<close> and
  \<^verbatim>\<open>current.index\<close> raises AttributeError; with \<^verbatim>\<open>goal\<close> left at \<^verbatim>\<open>None\<close>, \<^verbatim>\<open>goal.index\<close>
  raises it in the loop. The bundle is returned as it was given.
\<close>

definition dijkstras_run_algorithm_on_f ::
  "('x, 'y) dijkstras_params \<Rightarrow> ('x \<Rightarrow> 'y)
     \<Rightarrow> ('x, 'y) dijkstras_params \<times> (error + (('x, 'y) exe_path \<times> (ecost \<times> nat list))) option"
where
  "dijkstras_run_algorithm_on_f self f =
     (self,
      case vertices self of
        None \<Rightarrow> Some (Inl TypeError)
      | Some vs \<Rightarrow>
          (case start self of
             None \<Rightarrow> Some (Inl AttributeError)
           | Some s \<Rightarrow> dijkstras vs (cost_func self) (true_cost self) f s (goal self)))"

text \<open>\<^verbatim>\<open>Dijkstras.get_output_from_exe_path\<close>\<close>

definition dijkstras_get_output_from_exe_path ::
  "('x, 'y) dijkstras_params \<Rightarrow> ('x, 'y) exe_path \<Rightarrow> error + (ecost \<times> nat list)"
where
  "dijkstras_get_output_from_exe_path self ep =
     Inl (RuntimeError ''Can't return output from execution path for Dijkstras'')"


section \<open>Graphs, walks and their cost\<close>

text \<open>
  The notions the claims about the search are stated with. A graph is well formed when
  every neighbor is a vertex of the list; a walk is a nonempty list of vertices whose
  consecutive pairs are edges; its cost adds the costs the evaluator returns.
\<close>

definition well_formed :: "nat list list \<Rightarrow> bool" where
  "well_formed vs = list_all (\<lambda>nbs. list_all (\<lambda>v. v < length vs) nbs) vs"

fun is_walk :: "nat list list \<Rightarrow> nat list \<Rightarrow> bool" where
  "is_walk vs [] = False"
| "is_walk vs [u] = (u < length vs)"
| "is_walk vs (u # v # rest) = (u < length vs \<and> v \<in> set (vs ! u) \<and> is_walk vs (v # rest))"

definition walk_from_to :: "nat list list \<Rightarrow> nat \<Rightarrow> nat \<Rightarrow> nat list \<Rightarrow> bool" where
  "walk_from_to vs s g p = (is_walk vs p \<and> hd p = s \<and> last p = g)"

definition edge_cost :: "('x, 'y) cost_fn \<Rightarrow> ('x \<Rightarrow> 'y) \<Rightarrow> nat \<Rightarrow> nat \<Rightarrow> int" where
  "edge_cost cf f u v = (case cf u v f of Inr (c, xs, ys) \<Rightarrow> c | Inl e \<Rightarrow> 0)"

fun walk_cost :: "('x, 'y) cost_fn \<Rightarrow> ('x \<Rightarrow> 'y) \<Rightarrow> nat list \<Rightarrow> int" where
  "walk_cost cf f (u # v # rest) = edge_cost cf f u v + walk_cost cf f (v # rest)"
| "walk_cost cf f p = 0"

text \<open>The evaluator returns a cost, and a non-negative one, on every edge of the graph.\<close>

definition nonneg_costs :: "nat list list \<Rightarrow> ('x, 'y) cost_fn \<Rightarrow> ('x \<Rightarrow> 'y) \<Rightarrow> bool" where
  "nonneg_costs vs cf f =
     (\<forall>u v. u < length vs \<longrightarrow> v \<in> set (vs ! u) \<longrightarrow> (\<exists>c xs ys. cf u v f = Inr (c, xs, ys) \<and> 0 \<le> c))"

text \<open>The evaluator returns as many query outputs as query inputs.\<close>

definition paired_queries :: "('x, 'y) cost_fn \<Rightarrow> ('x \<Rightarrow> 'y) \<Rightarrow> bool" where
  "paired_queries cf f = (\<forall>u v c xs ys. cf u v f = Inr (c, xs, ys) \<longrightarrow> length xs = length ys)"

section \<open>Concrete inputs\<close>

text \<open>
  A graph of five vertices, the last one isolated; the oracle gives the weight of an
  edge, and the evaluator asks it once for each edge it is called on.
\<close>

definition ex_vertices :: "nat list list" where
  "ex_vertices = [[1, 2], [3], [1, 3], [], []]"

definition ex_oracle :: "nat \<times> nat \<Rightarrow> int" where
  "ex_oracle e =
     (if e = (0, 1) then 4 else if e = (0, 2) then 1 else if e = (2, 1) then 2
      else if e = (1, 3) then 1 else if e = (2, 3) then 5 else 0)"

definition ex_cost_func :: "(nat \<times> nat, int) cost_fn" where
  "ex_cost_func u v f = Inr (f (u, v), [(u, v)], [f (u, v)])"

definition ex_true_cost :: true_cost_fn where
  "ex_true_cost u v = Inr (ex_oracle (u, v))"

definition ex_params :: "(nat \<times> nat, int) dijkstras_params" where
  "ex_params =
     \<lparr>name = ''Dijkstras'', start = Some 0, goal = Some 3, vertices = Some ex_vertices,
      cost_func = ex_cost_func, true_cost = ex_true_cost\<rparr>"

text \<open>The same search with the isolated vertex as goal.\<close>

definition ex_params_no_path :: "(nat \<times> nat, int) dijkstras_params" where
  "ex_params_no_path = ex_params\<lparr>goal := Some 4\<rparr>"

text \<open>An oracle with one negative weight, on the edge from 2 to 1.\<close>

definition ex_oracle_neg :: "nat \<times> nat \<Rightarrow> int" where
  "ex_oracle_neg e = (if e = (2, 1) then - 2 else ex_oracle e)"

text \<open>A graph with an edge back to the start: 0 to 1, 1 to 0 and 1 to 2.\<close>

definition back_vertices :: "nat list list" where
  "back_vertices = [[1], [0, 2], []]"

definition back_params :: "(nat \<times> nat, int) dijkstras_params" where
  "back_params =
     \<lparr>name = ''Dijkstras'', start = Some 0, goal = Some 2, vertices = Some back_vertices,
      cost_func = ex_cost_func, true_cost = ex_true_cost\<rparr>"

text \<open>The state of that search when vertex 1 is expanded: 0 and 1 are explored.\<close>

definition back_state :: "(nat \<times> nat, int) search_state" where
  "back_state =
     \<lparr>explored = [True, True, False],
      min_cost = [Infinity, Finite 4, Infinity],
      prev = [None, Some 0, None],
      to_explore = [],
      trace = \<lparr>exe_x = [(0, 1)], exe_y = [4]\<rparr>\<rparr>"

text \<open>A bundle that gives nothing but the two cost functions.\<close>

definition ex_bundle :: "(nat \<times> nat, int) dijkstras_bundle" where
  "ex_bundle =
     \<lparr>given_name = None, given_start = None, given_goal = None, given_vertices = None,
      given_cost_func = Some ex_cost_func, given_true_cost = Some ex_true_cost\<rparr>"



text \<open>A scan over three points.\<close>

definition ex_scan :: "nat scan_params" where
  "ex_scan = \<lparr>name = ''LinearScan'', x_path = [Some 3, Some 1, Some 2]\<rparr>"



section \<open>States the search passes through\<close>

text \<open>
  One turn of the \<^verbatim>\<open>while\<close> loop that does not return leads from the state at the head
  of the loop to the next one: either the entry popped is stale and only dropped, or its
  vertex is marked explored and its neighbors are relaxed. \<open>search_reaches st0 st\<close> says
  that the loop started in \<open>st0\<close> comes to its head in state \<open>st\<close>.
\<close>

inductive search_reaches ::
  "nat list list \<Rightarrow> ('x, 'y) cost_fn \<Rightarrow> ('x \<Rightarrow> 'y) \<Rightarrow> nat option
     \<Rightarrow> ('x, 'y) search_state \<Rightarrow> ('x, 'y) search_state \<Rightarrow> bool"
  for vs :: "nat list list" and cf :: "('x, 'y) cost_fn" and f :: "'x \<Rightarrow> 'y"
    and goal_v :: "nat option"
where
  reaches_start: "search_reaches vs cf f goal_v st0 st0"
| reaches_stale:
    "search_reaches vs cf f goal_v st0 st \<Longrightarrow> to_explore st \<noteq> [] \<Longrightarrow>
     heappop (to_explore st) = ((best_cost, current), rest) \<Longrightarrow>
     current < length (explored st) \<Longrightarrow> explored st ! current \<Longrightarrow>
     search_reaches vs cf f goal_v st0 (st\<lparr>to_explore := rest\<rparr>)"
| reaches_expand:
    "search_reaches vs cf f goal_v st0 st \<Longrightarrow> to_explore st \<noteq> [] \<Longrightarrow>
     heappop (to_explore st) = ((best_cost, current), rest) \<Longrightarrow>
     current < length (explored st) \<Longrightarrow> \<not> explored st ! current \<Longrightarrow>
     goal_v = Some g \<Longrightarrow> current \<noteq> g \<Longrightarrow>
     relax_neighbors cf f best_cost current (vs ! current)
       (st\<lparr>to_explore := rest, explored := (explored st)[current := True]\<rparr>) = Inr st' \<Longrightarrow>
     search_reaches vs cf f goal_v st0 st'"

text \<open>The queries the evaluator returns for an edge (none when it raises).\<close>

definition query_inputs :: "('x, 'y) cost_fn \<Rightarrow> ('x \<Rightarrow> 'y) \<Rightarrow> nat \<Rightarrow> nat \<Rightarrow> 'x list" where
  "query_inputs cf f u v = (case cf u v f of Inr (c, xs, ys) \<Rightarrow> xs | Inl e \<Rightarrow> [])"

definition query_outputs :: "('x, 'y) cost_fn \<Rightarrow> ('x \<Rightarrow> 'y) \<Rightarrow> nat \<Rightarrow> nat \<Rightarrow> 'y list" where
  "query_outputs cf f u v = (case cf u v f of Inr (c, xs, ys) \<Rightarrow> ys | Inl e \<Rightarrow> [])"

text \<open>
  The state of the search on the example graph after the start vertex has been expanded:
  the frontier holds vertex 2 at cost 1 and vertex 1 at cost 4.
\<close>

definition ex_state :: "(nat \<times> nat, int) search_state" where
  "ex_state =
     \<lparr>explored = [True, False, False, False, False],
      min_cost = [Infinity, Finite 4, Finite 1, Infinity, Infinity],
      prev = [None, Some 0, Some 0, None, None],
      to_explore = [(1, 2), (4, 1)],
      trace = \<lparr>exe_x = [(0, 1), (0, 2)], exe_y = [4, 1]\<rparr>\<rparr>"

text \<open>
  Every cost the evaluator returns is non-negative; and neither the evaluator nor the
  ground-truth function raises an AssertionError of its own.
\<close>

definition costs_nonneg :: "('x, 'y) cost_fn \<Rightarrow> ('x \<Rightarrow> 'y) \<Rightarrow> bool" where
  "costs_nonneg cf f = (\<forall>u v c xs ys. cf u v f = Inr (c, xs, ys) \<longrightarrow> 0 \<le> c)"

definition no_assertion_inside :: "('x, 'y) cost_fn \<Rightarrow> true_cost_fn \<Rightarrow> ('x \<Rightarrow> 'y) \<Rightarrow> bool" where
  "no_assertion_inside cf tc f =
     ((\<forall>u v. cf u v f \<noteq> Inl AssertionError) \<and> (\<forall>u v. tc u v \<noteq> Inl AssertionError))"

section \<open>The invariant of the search\<close>

text \<open>
  The facts that hold at the head of the loop once the start vertex is explored. \<open>P u\<close>
  is the walk by which the explored vertex \<open>u\<close> was reached, and \<open>D\<close> the set of edges
  out of explored vertices that have been relaxed (inside the \<^verbatim>\<open>for\<close> loop the edges of
  the current vertex join it one by one).

  \<^item> \<open>explored_settled\<close>: the walk of an explored vertex leads from the start to it, no
    walk to it is cheaper, and the predecessor links spell it backwards.
  \<^item> \<open>edges_relaxed\<close>: the far end of a relaxed edge, if not explored, has a best-known
    cost no greater than the cost through that edge.
  \<^item> \<open>frontier_sound\<close>: a finite best-known cost of an unexplored vertex is on the
    frontier, and is the cost through the predecessor recorded for it.
  \<^item> \<open>heap_bounded\<close>: every entry of the frontier is a vertex, at a cost no less than
    its best-known cost.
\<close>

definition explored_settled ::
  "nat list list \<Rightarrow> ('x, 'y) cost_fn \<Rightarrow> ('x \<Rightarrow> 'y) \<Rightarrow> nat \<Rightarrow> (nat \<Rightarrow> nat list)
     \<Rightarrow> ('x, 'y) search_state \<Rightarrow> bool"
where
  "explored_settled vs cf f s P st =
     (\<forall>u. u < length vs \<longrightarrow> explored st ! u \<longrightarrow>
        walk_from_to vs s u (P u)
        \<and> (\<forall>q. walk_from_to vs s u q \<longrightarrow> walk_cost cf f (P u) \<le> walk_cost cf f q)
        \<and> ((u = s \<and> P u = [s] \<and> prev st ! u = None)
           \<or> (\<exists>a. a < length vs \<and> explored st ! a \<and> prev st ! u = Some a \<and> P u = P a @ [u])))"

definition edges_relaxed ::
  "('x, 'y) cost_fn \<Rightarrow> ('x \<Rightarrow> 'y) \<Rightarrow> (nat \<Rightarrow> nat list) \<Rightarrow> (nat \<times> nat) set
     \<Rightarrow> ('x, 'y) search_state \<Rightarrow> bool"
where
  "edges_relaxed cf f P D st =
     (\<forall>a b. (a, b) \<in> D \<longrightarrow> \<not> explored st ! b \<longrightarrow>
        (\<exists>c. min_cost st ! b = Finite c \<and> c \<le> walk_cost cf f (P a) + edge_cost cf f a b))"

definition frontier_sound ::
  "nat list list \<Rightarrow> ('x, 'y) cost_fn \<Rightarrow> ('x \<Rightarrow> 'y) \<Rightarrow> (nat \<Rightarrow> nat list)
     \<Rightarrow> ('x, 'y) search_state \<Rightarrow> bool"
where
  "frontier_sound vs cf f P st =
     (\<forall>b c. b < length vs \<longrightarrow> \<not> explored st ! b \<longrightarrow> min_cost st ! b = Finite c \<longrightarrow>
        (c, b) \<in> set (to_explore st)
        \<and> (\<exists>a. a < length vs \<and> explored st ! a \<and> prev st ! b = Some a \<and> b \<in> set (vs ! a)
               \<and> c = walk_cost cf f (P a) + edge_cost cf f a b))"

definition heap_bounded :: "nat list list \<Rightarrow> ('x, 'y) search_state \<Rightarrow> bool" where
  "heap_bounded vs st =
     (\<forall>c v. (c, v) \<in> set (to_explore st) \<longrightarrow>
        v < length vs
        \<and> (\<not> explored st ! v \<longrightarrow> (\<exists>c'. min_cost st ! v = Finite c' \<and> c' \<le> c)))"

definition search_inv ::
  "nat list list \<Rightarrow> ('x, 'y) cost_fn \<Rightarrow> ('x \<Rightarrow> 'y) \<Rightarrow> nat \<Rightarrow> (nat \<Rightarrow> nat list)
     \<Rightarrow> (nat \<times> nat) set \<Rightarrow> ('x, 'y) search_state \<Rightarrow> bool"
where
  "search_inv vs cf f s P D st =
     (length (explored st) = length vs \<and> length (min_cost st) = length vs
      \<and> length (prev st) = length vs \<and> s < length vs \<and> explored st ! s
      \<and> explored_settled vs cf f s P st \<and> edges_relaxed cf f P D st
      \<and> frontier_sound vs cf f P st \<and> heap_bounded vs st)"

definition explored_edges :: "nat list list \<Rightarrow> ('x, 'y) search_state \<Rightarrow> (nat \<times> nat) set" where
  "explored_edges vs st = {(a, b). a < length vs \<and> explored st ! a \<and> b \<in> set (vs ! a)}"


text \<open>
  What the search may return: no path, and then there is no walk from the start to the
  goal; or a cheapest walk from the start to the goal with its cost, unless the
  ground-truth cost function raises on that walk.
\<close>

definition search_outcome ::
  "nat list list \<Rightarrow> ('x, 'y) cost_fn \<Rightarrow> true_cost_fn \<Rightarrow> ('x \<Rightarrow> 'y) \<Rightarrow> nat \<Rightarrow> nat
     \<Rightarrow> (error + (('x, 'y) exe_path \<times> (ecost \<times> nat list))) option \<Rightarrow> bool"
where
  "search_outcome vs cf tc f s g r =
     ((\<exists>ep. r = Some (Inr (ep, (Infinity, []))) \<and> (\<forall>q. \<not> walk_from_to vs s g q))
      \<or> (\<exists>ep p. walk_from_to vs s g p
            \<and> (\<forall>q. walk_from_to vs s g q \<longrightarrow> walk_cost cf f p \<le> walk_cost cf f q)
            \<and> r = (case true_cost_of_path tc 0 p of
                      Inl e \<Rightarrow> Some (Inl e)
                    | Inr c \<Rightarrow> Some (Inr (ep, (Finite (walk_cost cf f p), p))))))"

section \<open>Termination of the search\<close>

lemma relax_neighbors_explored:
  "relax_neighbors cf f bc cur nbs st = Inr st' \<Longrightarrow> explored st' = explored st"
  by (induction nbs arbitrary: st) (auto split: sum.splits if_splits prod.splits)

lemma count_unexplored_less:
  "i < length bs \<Longrightarrow> \<not> bs ! i \<Longrightarrow> length (filter Not (bs[i := True])) < length (filter Not bs)"
proof (induction bs arbitrary: i)
  case Nil
  then show ?case by simp
next
  case (Cons b bs)
  then show ?case by (cases i) (auto simp: Suc_le_eq)
qed

text \<open>
  Every turn of the loop either drops a stale entry of the frontier or explores a vertex
  that was not explored: the pair (number of unexplored vertices, size of the frontier)
  decreases lexicographically.
\<close>

termination dijkstras_loop
proof (relation "measures [\<lambda>(vs, cf, tc, f, g, st). length (filter Not (explored st)),
                          \<lambda>(vs, cf, tc, f, g, st). length (to_explore st)]", goal_cases)
  case 1
  show ?case by simp
next
  case (2 vs cf tc f goal_v st x1 x2 best_cost current)
  then show ?case
    by (auto simp: heappop_def Let_def length_remove1)
next
  case (3 vs cf tc f goal_v st x1 x2 best_cost current g st')
  then show ?case
    using relax_neighbors_explored[of cf f best_cost current "vs ! current" _ st']
    by (auto simp: count_unexplored_less)
qed

declare dijkstras_loop.simps [simp del]

section \<open>The generic run loop\<close>

lemma pull_loop_sound_aux:
  assumes "pull_loop next_x f ep = Some r"
  shows "\<forall>tr. r = Inr tr \<longrightarrow> pull_spec next_x f ep tr"
  by (rule pull_loop.raw_induct
        [where P = "\<lambda>nx g e r. \<forall>tr. r = Inr tr \<longrightarrow> pull_spec nx g e tr", OF _ assms])
     (auto split: sum.splits option.splits intro: pull_spec.intros)

lemma pull_loop_sound:
  "pull_loop next_x f ep = Some (Inr tr) \<Longrightarrow> pull_spec next_x f ep tr"
  using pull_loop_sound_aux by blast

lemma pull_loop_complete:
  "pull_spec next_x f ep tr \<Longrightarrow> pull_loop next_x f ep = Some (Inr tr)"
proof (induction rule: pull_spec.induct)
  case (pull_done tr)
  then show ?case by (subst pull_loop.simps) simp
next
  case (pull_step tr a tr')
  then show ?case by (subst pull_loop.simps) simp
qed

text \<open>
  Claim C5. For a variant that inherits \<^verbatim>\<open>run_algorithm_on_f\<close>, the run returns a trace
  and an output exactly when the pull loop of the specification, started from the empty
  trace, ends in that trace (each step asks \<^verbatim>\<open>get_next_x\<close> on the trace so far, stops on
  the sentinel, and otherwise appends the input with the oracle's answer) and the output
  is \<^verbatim>\<open>get_output_from_exe_path\<close> of that trace.
\<close>

theorem run_is_pull_loop:
  "snd (run_algorithm_on_f next_x get_output self f) = Some (Inr (tr, out))
     \<longleftrightarrow> pull_spec (next_x self) f empty_path tr \<and> get_output self tr = Inr out"
proof
  assume "snd (run_algorithm_on_f next_x get_output self f) = Some (Inr (tr, out))"
  then have "pull_loop (next_x self) f empty_path = Some (Inr tr)" "get_output self tr = Inr out"
    by (auto simp: run_algorithm_on_f_def split: option.splits sum.splits)
  then show "pull_spec (next_x self) f empty_path tr \<and> get_output self tr = Inr out"
    using pull_loop_sound by blast
next
  assume "pull_spec (next_x self) f empty_path tr \<and> get_output self tr = Inr out"
  then show "snd (run_algorithm_on_f next_x get_output self f) = Some (Inr (tr, out))"
    by (auto simp: run_algorithm_on_f_def pull_loop_complete)
qed

theorem run_is_pull_loop_witness:
  "pull_spec (get_next_x (x_path ex_scan)) (\<lambda>x. x * x) empty_path
     \<lparr>exe_x = [3, 1, 2 :: nat], exe_y = [9, 1, 4 :: nat]\<rparr>
   \<and> linear_scan_get_output ex_scan \<lparr>exe_x = [3, 1, 2 :: nat], exe_y = [9, 1, 4 :: nat]\<rparr>
         = Inr [9, 1, 4]"
proof -
  have "snd (run_algorithm_on_f (\<lambda>p. get_next_x (x_path p)) linear_scan_get_output ex_scan (\<lambda>x. x * x))
          = Some (Inr (\<lparr>exe_x = [3, 1, 2], exe_y = [9, 1, 4]\<rparr>, [9, 1, 4]))"
    by code_simp
  then show ?thesis
    using run_is_pull_loop[of "\<lambda>p. get_next_x (x_path p)" linear_scan_get_output ex_scan "\<lambda>x. x * x"]
    by simp
qed

section \<open>Output and construction of the shortest-path variant\<close>

text \<open>
  Claim C7. Asking the shortest-path variant for an output derived from an execution
  path raises RuntimeError, whatever the path is; no value is returned.
\<close>

theorem dijkstras_output_unsupported:
  "dijkstras_get_output_from_exe_path self ep
     = Inl (RuntimeError ''Can't return output from execution path for Dijkstras'')
   \<and> dijkstras_get_output_from_exe_path self ep \<noteq> Inr v"
  by (simp add: dijkstras_get_output_from_exe_path_def)

lemma dijkstras_loop_goal_absent:
  "s < n \<Longrightarrow> dijkstras_loop vs cf tc f None (init_state n s) = Some (Inl AttributeError)"
  by (subst dijkstras_loop.simps) (simp add: init_state_def heappop_def)

text \<open>
  Claim C10, as stated, fails: the constructor accepts a bundle without start, goal and
  vertex list, and stores \<^verbatim>\<open>None\<close> for each.
\<close>

theorem set_params_absent_counterexample:
  "dijkstras_set_params ex_bundle
     = Inr \<lparr>name = ''Dijkstras'', start = None, goal = None, vertices = None,
            cost_func = ex_cost_func, true_cost = ex_true_cost\<rparr>"
  by (simp add: dijkstras_set_params_def ex_bundle_def)

text \<open>
  Claim C10, amended. Construction succeeds for every bundle and keeps an absent start,
  goal or vertex list as \<^verbatim>\<open>None\<close>; it is the run that fails then: with TypeError when the
  vertex list is absent, with AttributeError when the start is absent, and with
  AttributeError when the goal is absent and the start is a vertex of the list. The
  failure is the same for every evaluator and oracle, also for an evaluator that raises
  when called: no cost evaluation, and so no oracle query, comes before it.
\<close>

theorem set_params_absent_fields:
  "\<exists>p. dijkstras_set_params b = Inr p
     \<and> start p = given_start b \<and> goal p = given_goal b \<and> vertices p = given_vertices b
     \<and> (given_vertices b = None \<longrightarrow>
          snd (dijkstras_run_algorithm_on_f p f) = Some (Inl TypeError))
     \<and> (given_vertices b \<noteq> None \<longrightarrow> given_start b = None \<longrightarrow>
          snd (dijkstras_run_algorithm_on_f p f) = Some (Inl AttributeError))
     \<and> (\<forall>vs s. given_vertices b = Some vs \<longrightarrow> given_start b = Some s \<longrightarrow> s < length vs \<longrightarrow>
          given_goal b = None \<longrightarrow>
          snd (dijkstras_run_algorithm_on_f p f) = Some (Inl AttributeError))"
  by (auto simp: dijkstras_set_params_def dijkstras_run_algorithm_on_f_def dijkstras_def
        dijkstras_loop_goal_absent split: option.splits)

theorem set_params_absent_fields_witness:
  "snd (dijkstras_run_algorithm_on_f
          \<lparr>name = ''Dijkstras'', start = None, goal = None, vertices = None,
            cost_func = ex_cost_func, true_cost = ex_true_cost\<rparr> ex_oracle) = Some (Inl TypeError)"
  using set_params_absent_fields[of ex_bundle ex_oracle]
  by (simp add: dijkstras_set_params_def ex_bundle_def)

section \<open>Consistency of the trace\<close>

lemma extends_refl: "extends ep ep"
  by (simp add: extends_def)

lemma extends_trans: "extends a b \<Longrightarrow> extends b c \<Longrightarrow> extends a c"
  by (auto simp: extends_def)

lemma append_pair_consistent:
  "consistent ep \<Longrightarrow> consistent (append_pair ep a b) \<and> extends ep (append_pair ep a b)"
  by (simp add: consistent_def extends_def append_pair_def)

lemma extend_path_consistent:
  "consistent ep \<Longrightarrow> length xs = length ys \<Longrightarrow>
     consistent (extend_path ep xs ys) \<and> extends ep (extend_path ep xs ys)"
  by (simp add: consistent_def extends_def extend_path_def)

lemma pull_loop_consistent_aux:
  assumes "pull_loop next_x f ep = Some r"
  shows "\<forall>ep'. r = Inr ep' \<longrightarrow> consistent ep \<longrightarrow> consistent ep' \<and> extends ep ep'"
  by (rule pull_loop.raw_induct
        [where P = "\<lambda>nx g e r. \<forall>ep'. r = Inr ep' \<longrightarrow> consistent e \<longrightarrow> consistent ep' \<and> extends e ep'",
         OF _ assms])
     (auto split: sum.splits option.splits simp: extends_refl;
      metis append_pair_consistent extends_trans)

lemma pull_loop_consistent:
  "pull_loop next_x f ep = Some (Inr ep') \<Longrightarrow> consistent ep \<Longrightarrow> consistent ep' \<and> extends ep ep'"
  using pull_loop_consistent_aux by blast

lemma run_consistent:
  "snd (run_algorithm_on_f next_x get_output self f) = Some (Inr (tr, out)) \<Longrightarrow> consistent tr"
proof -
  assume "snd (run_algorithm_on_f next_x get_output self f) = Some (Inr (tr, out))"
  then have "pull_loop (next_x self) f empty_path = Some (Inr tr)"
    by (auto simp: run_algorithm_on_f_def split: option.splits sum.splits)
  moreover have "consistent (empty_path :: ('a, 'b) exe_path)"
    by (simp add: consistent_def empty_path_def)
  ultimately show ?thesis using pull_loop_consistent by blast
qed

lemma distance_consistent:
  "paired_queries cf f \<Longrightarrow> distance cf f u v ep = Inr (c, ep') \<Longrightarrow> consistent ep \<Longrightarrow>
     consistent ep' \<and> extends ep ep'"
  by (auto simp: distance_def paired_queries_def Let_def extend_path_consistent
        split: sum.splits prod.splits if_splits)

lemma relax_neighbors_consistent:
  "paired_queries cf f \<Longrightarrow> relax_neighbors cf f bc cur nbs st = Inr st' \<Longrightarrow>
     consistent (trace st) \<Longrightarrow> consistent (trace st') \<and> extends (trace st) (trace st')"
proof (induction nbs arbitrary: st)
  case Nil
  then show ?case by (simp add: extends_refl)
next
  case (Cons nb nbs)
  from Cons.prems(2) obtain sc ep where d: "distance cf f cur nb (trace st) = Inr (sc, ep)"
    by (auto split: sum.splits)
  have ep: "consistent ep \<and> extends (trace st) ep"
    using distance_consistent[OF Cons.prems(1) d Cons.prems(3)] .
  from Cons.prems(2) d obtain st1 where
    st1: "relax_neighbors cf f bc cur nbs st1 = Inr st'" "trace st1 = ep"
    by (auto split: if_splits)
  from Cons.IH[OF Cons.prems(1) st1(1)] ep st1(2)
  show ?case by (auto intro: extends_trans)
qed

lemma dijkstras_loop_consistent:
  "paired_queries cf f \<Longrightarrow> dijkstras_loop vs cf tc f goal_v st = Some (Inr (ep, out)) \<Longrightarrow>
     consistent (trace st) \<Longrightarrow> consistent ep \<and> extends (trace st) ep"
proof (induction vs cf tc f goal_v st rule: dijkstras_loop.induct)
  case (1 vs cf tc f goal_v st)
  show ?case
  proof (cases "to_explore st = []")
    case True
    with "1.prems" show ?thesis
      by (subst (asm) dijkstras_loop.simps) (simp add: extends_refl)
  next
    case False
    obtain bc cur rest where pop: "heappop (to_explore st) = ((bc, cur), rest)"
      by (metis prod.exhaust)
    show ?thesis
    proof (cases "explored st ! cur")
      case True
      with "1.prems"(2) False pop have
        "\<not> length (explored st) \<le> cur"
        "dijkstras_loop vs cf tc f goal_v (st\<lparr>to_explore := rest\<rparr>) = Some (Inr (ep, out))"
        by (subst (asm) dijkstras_loop.simps, simp split: if_splits)+
      with "1.IH"(1)[OF False pop[symmetric] refl _ True] "1.prems"(1,3)
      show ?thesis by simp
    next
      case nexp: False
      from "1.prems"(2) False pop nexp obtain g where g: "goal_v = Some g"
        and inrange: "\<not> length (explored st) \<le> cur"
        by (subst (asm) dijkstras_loop.simps) (auto split: if_splits option.splits)
      show ?thesis
      proof (cases "cur = g")
        case True
        with "1.prems"(2) False pop nexp g inrange have "ep = trace st"
          by (subst (asm) dijkstras_loop.simps) (auto split: if_splits option.splits sum.splits)
        with "1.prems"(3) show ?thesis by (simp add: extends_refl)
      next
        case ng: False
        from "1.prems"(2) False pop nexp g inrange ng obtain st' where
          r: "relax_neighbors cf f bc cur (vs ! cur)
                (st\<lparr>to_explore := rest, explored := (explored st)[cur := True]\<rparr>) = Inr st'"
          and l: "dijkstras_loop vs cf tc f goal_v st' = Some (Inr (ep, out))"
          by (subst (asm) dijkstras_loop.simps) (auto split: if_splits option.splits sum.splits)
        from relax_neighbors_consistent[OF "1.prems"(1) r] "1.prems"(3)
        have c': "consistent (trace st') \<and> extends (trace st) (trace st')" by simp
        from "1.IH"(2)[OF False pop[symmetric] refl inrange nexp g ng r "1.prems"(1) l] c'
        show ?thesis by (auto intro: extends_trans)
      qed
    qed
  qed
qed

lemma dijkstras_run_consistent:
  "paired_queries (cost_func p) f \<Longrightarrow>
   snd (dijkstras_run_algorithm_on_f p f) = Some (Inr (ep, out)) \<Longrightarrow> consistent ep"
proof -
  assume pq: "paired_queries (cost_func p) f"
    and r: "snd (dijkstras_run_algorithm_on_f p f) = Some (Inr (ep, out))"
  from r obtain vs s where
    l: "dijkstras_loop vs (cost_func p) (true_cost p) f (goal p) (init_state (length vs) s)
          = Some (Inr (ep, out))"
    by (auto simp: dijkstras_run_algorithm_on_f_def dijkstras_def split: option.splits)
  have "consistent (trace (init_state (length vs) s :: ('a, 'b) search_state))"
    by (simp add: init_state_def consistent_def empty_path_def)
  with dijkstras_loop_consistent[OF pq l] show ?thesis by simp
qed

lemma search_reaches_consistent:
  "search_reaches vs cf f goal_v st0 st \<Longrightarrow> paired_queries cf f \<Longrightarrow> consistent (trace st0) \<Longrightarrow>
     consistent (trace st) \<and> extends (trace st0) (trace st)"
proof (induction rule: search_reaches.induct)
  case (reaches_start st0)
  then show ?case by (simp add: extends_refl)
next
  case (reaches_stale st0 st best_cost current rest)
  then show ?case by simp
next
  case (reaches_expand st0 st best_cost current rest g st')
  from reaches_expand.IH[OF reaches_expand.prems]
  have a: "consistent (trace st)" "extends (trace st0) (trace st)" by simp_all
  from relax_neighbors_consistent[OF reaches_expand.prems(1) reaches_expand.hyps(8)] a(1)
  have "consistent (trace st') \<and> extends (trace st) (trace st')" by simp
  with a(2) show ?case by (auto intro: extends_trans)
qed

text \<open>
  Claim C6. The trace has as many outputs as inputs after every append and at completion,
  and is only ever extended: appending a pair keeps the two lists of equal length and
  keeps the old trace as a prefix; so does the generic loop from any trace to the one it
  returns, and the trace a generic run returns is consistent. For the shortest-path
  variant, with an evaluator that returns as many query outputs as query inputs, every
  call of \<^verbatim>\<open>distance\<close> keeps the trace consistent and extends it, every state the search
  passes through has a consistent trace that extends the initial one, and the trace the
  run returns is consistent.
\<close>

theorem trace_consistency:
  "(consistent ep \<longrightarrow> consistent (append_pair ep a b) \<and> extends ep (append_pair ep a b))
   \<and> (pull_loop nq f ep = Some (Inr ep') \<longrightarrow> consistent ep \<longrightarrow>
        consistent ep' \<and> extends ep ep')
   \<and> (snd (run_algorithm_on_f next_x get_output self f) = Some (Inr (tr, out)) \<longrightarrow> consistent tr)
   \<and> (paired_queries cf h \<longrightarrow> distance cf h u v dp = Inr (c, dp') \<longrightarrow> consistent dp \<longrightarrow>
        consistent dp' \<and> extends dp dp')
   \<and> (paired_queries cf h \<longrightarrow> search_reaches vs cf h goal_v (init_state n s) st \<longrightarrow>
        consistent (trace st) \<and> extends (trace (init_state n s)) (trace st))
   \<and> (paired_queries (cost_func p) h \<longrightarrow>
        snd (dijkstras_run_algorithm_on_f p h) = Some (Inr (rp, res)) \<longrightarrow> consistent rp)"
proof -
  have c1: "consistent ep \<longrightarrow> consistent (append_pair ep a b) \<and> extends ep (append_pair ep a b)"
    by (intro impI) (rule append_pair_consistent)
  have c2: "pull_loop nq f ep = Some (Inr ep') \<longrightarrow> consistent ep \<longrightarrow>
        consistent ep' \<and> extends ep ep'"
    by (intro impI) (rule pull_loop_consistent)
  have c3: "snd (run_algorithm_on_f next_x get_output self f) = Some (Inr (tr, out)) \<longrightarrow>
        consistent tr"
    by (intro impI) (rule run_consistent)
  have c4: "paired_queries cf h \<longrightarrow> distance cf h u v dp = Inr (c, dp') \<longrightarrow> consistent dp \<longrightarrow>
        consistent dp' \<and> extends dp dp'"
    by (intro impI) (rule distance_consistent)
  have c5: "paired_queries cf h \<longrightarrow> search_reaches vs cf h goal_v (init_state n s) st \<longrightarrow>
        consistent (trace st) \<and> extends (trace (init_state n s)) (trace st)"
  proof (intro impI)
    assume pq: "paired_queries cf h" and r: "search_reaches vs cf h goal_v (init_state n s) st"
    show "consistent (trace st) \<and> extends (trace (init_state n s)) (trace st)"
      by (rule search_reaches_consistent[OF r pq])
         (simp add: init_state_def consistent_def empty_path_def)
  qed
  have c6: "paired_queries (cost_func p) h \<longrightarrow>
        snd (dijkstras_run_algorithm_on_f p h) = Some (Inr (rp, res)) \<longrightarrow> consistent rp"
    by (intro impI) (rule dijkstras_run_consistent)
  show ?thesis by (intro conjI c1 c2 c3 c4 c5 c6)
qed

text \<open>The search on the example graph: the cheapest path avoids the direct edges.\<close>

lemma ex_run: "snd (dijkstras_run_algorithm_on_f ex_params ex_oracle) =
   Some (Inr (\<lparr>exe_x = [(0, 1), (0, 2), (2, 1), (2, 3), (1, 3)], exe_y = [4, 1, 2, 5, 1]\<rparr>,
              Finite 4, [0, 2, 1, 3]))"
  by code_simp

lemma ex_paired: "paired_queries ex_cost_func f"
  by (simp add: paired_queries_def ex_cost_func_def)

theorem trace_consistency_witness:
  "paired_queries (cost_func ex_params) ex_oracle
   \<and> consistent \<lparr>exe_x = [(0, 1), (0, 2), (2, 1), (2, 3), (1 :: nat, 3 :: nat)],
                  exe_y = [4, 1, 2, 5, 1 :: int]\<rparr>"
proof -
  have pq: "paired_queries (cost_func ex_params) ex_oracle"
    by (simp add: ex_params_def ex_paired)
  note t = trace_consistency[where p = ex_params and h = ex_oracle,
      THEN conjunct2, THEN conjunct2, THEN conjunct2, THEN conjunct2, THEN conjunct2]
  have "consistent \<lparr>exe_x = [(0, 1), (0, 2), (2, 1), (2, 3), (1 :: nat, 3 :: nat)],
                      exe_y = [4, 1, 2, 5, 1 :: int]\<rparr>"
    by (rule mp[OF mp[OF t pq] ex_run])
  with pq show ?thesis by (intro conjI)
qed

section \<open>The assertion on the cost\<close>

lemma distance_negative:
  "cf u v f = Inr (c, xs, ys) \<Longrightarrow> c < 0 \<Longrightarrow> distance cf f u v ep = Inl AssertionError"
  by (simp add: distance_def)

lemma distance_nonneg:
  "cf u v f = Inr (c, xs, ys) \<Longrightarrow> 0 \<le> c \<Longrightarrow> distance cf f u v ep = Inr (c, extend_path ep xs ys)"
  by (simp add: distance_def)

lemma relax_neighbors_append:
  "relax_neighbors cf f bc cur (pre @ post) st =
     (case relax_neighbors cf f bc cur pre st of
        Inl e \<Rightarrow> Inl e
      | Inr st1 \<Rightarrow> relax_neighbors cf f bc cur post st1)"
  by (induction pre arbitrary: st) (auto split: sum.splits prod.splits)

lemma relax_neighbors_negative:
  "relax_neighbors cf f bc cur pre st = Inr st1 \<Longrightarrow> cf cur nb f = Inr (c, xs, ys) \<Longrightarrow> c < 0 \<Longrightarrow>
     relax_neighbors cf f bc cur (pre @ nb # post) st = Inl AssertionError"
  by (simp add: relax_neighbors_append distance_negative)

lemma search_reaches_loop:
  "search_reaches vs cf f goal_v st0 st \<Longrightarrow>
     dijkstras_loop vs cf tc f goal_v st0 = dijkstras_loop vs cf tc f goal_v st"
proof (induction rule: search_reaches.induct)
  case (reaches_start st0)
  show ?case by simp
next
  case (reaches_stale st0 st best_cost current rest)
  have "dijkstras_loop vs cf tc f goal_v st = dijkstras_loop vs cf tc f goal_v (st\<lparr>to_explore := rest\<rparr>)"
    using reaches_stale.hyps by (subst dijkstras_loop.simps) simp
  with reaches_stale.IH show ?case by simp
next
  case (reaches_expand st0 st best_cost current rest g st')
  have "dijkstras_loop vs cf tc f goal_v st = dijkstras_loop vs cf tc f goal_v st'"
    using reaches_expand.hyps by (subst dijkstras_loop.simps) simp
  with reaches_expand.IH show ?case by simp
qed

lemma dijkstras_loop_negative:
  assumes "to_explore st \<noteq> []" "heappop (to_explore st) = ((bc, cur), rest)"
    "cur < length (explored st)" "\<not> explored st ! cur" "cur \<noteq> g"
    "vs ! cur = pre @ nb # post"
    "relax_neighbors cf f bc cur pre
       (st\<lparr>to_explore := rest, explored := (explored st)[cur := True]\<rparr>) = Inr st1"
    "cf cur nb f = Inr (c, xs, ys)" "c < 0"
  shows "dijkstras_loop vs cf tc f (Some g) st = Some (Inl AssertionError)"
  using assms relax_neighbors_negative[OF assms(7,8,9), of post]
  by (subst dijkstras_loop.simps) simp

lemma distance_no_assertion:
  "no_assertion_inside cf tc f \<Longrightarrow> costs_nonneg cf f \<Longrightarrow>
   distance cf f u v ep \<noteq> Inl AssertionError"
  by (auto simp: distance_def Let_def no_assertion_inside_def costs_nonneg_def
        split: sum.splits prod.splits if_splits; blast)

lemma relax_neighbors_no_assertion:
  "no_assertion_inside cf tc f \<Longrightarrow> costs_nonneg cf f \<Longrightarrow>
   relax_neighbors cf f bc cur nbs st \<noteq> Inl AssertionError"
proof (induction nbs arbitrary: st)
  case Nil
  show ?case by simp
next
  case (Cons nb nbs)
  from distance_no_assertion[OF Cons.prems] Cons.IH[OF Cons.prems]
  show ?case by (auto split: sum.splits prod.splits)
qed

lemma true_cost_of_path_no_assertion:
  "no_assertion_inside cf tc f \<Longrightarrow> true_cost_of_path tc k p \<noteq> Inl AssertionError"
  by (induction tc k p rule: true_cost_of_path.induct)
     (auto simp: no_assertion_inside_def split: sum.splits)

lemma backtrack_loop_no_assertion_aux:
  assumes "backtrack_loop cur prv acc = Some r"
  shows "r \<noteq> Inl AssertionError"
  by (rule backtrack_loop.raw_induct[where P = "\<lambda>c p a r. r \<noteq> Inl AssertionError", OF _ assms])
     (auto split: option.splits if_splits)

lemma dijkstras_loop_no_assertion:
  "no_assertion_inside cf tc f \<Longrightarrow> costs_nonneg cf f \<Longrightarrow>
   dijkstras_loop vs cf tc f goal_v st \<noteq> Some (Inl AssertionError)"
proof (induction vs cf tc f goal_v st rule: dijkstras_loop.induct)
  case (1 vs cf tc f goal_v st)
  note ra = relax_neighbors_no_assertion[OF "1.prems"]
  note ta = true_cost_of_path_no_assertion[OF "1.prems"(1)]
  show ?case
  proof
    assume a: "dijkstras_loop vs cf tc f goal_v st = Some (Inl AssertionError)"
    then have ne: "to_explore st \<noteq> []"
      by (subst (asm) dijkstras_loop.simps) (auto split: if_splits)
    obtain bc cur rest where pop: "heappop (to_explore st) = ((bc, cur), rest)"
      by (metis prod.exhaust)
    from a ne pop have inrange: "\<not> length (explored st) \<le> cur"
      by (subst (asm) dijkstras_loop.simps) (auto split: if_splits)
    show False
    proof (cases "explored st ! cur")
      case True
      with a ne pop inrange have
        "dijkstras_loop vs cf tc f goal_v (st\<lparr>to_explore := rest\<rparr>) = Some (Inl AssertionError)"
        by (subst (asm) dijkstras_loop.simps) simp
      with "1.IH"(1)[OF ne pop[symmetric] refl inrange True "1.prems"] show False by simp
    next
      case nexp: False
      from a ne pop nexp inrange obtain g where g: "goal_v = Some g"
        by (subst (asm) dijkstras_loop.simps) (auto split: option.splits)
      show False
      proof (cases "cur = g")
        case True
        with a ne pop nexp g inrange ta backtrack_loop_no_assertion_aux show False
          by (subst (asm) dijkstras_loop.simps)
             (auto simp: backtrack_indices_def split: if_splits option.splits sum.splits; blast)
      next
        case ng: False
        from a ne pop nexp g inrange ng ra obtain st' where
          r: "relax_neighbors cf f bc cur (vs ! cur)
                (st\<lparr>to_explore := rest, explored := (explored st)[cur := True]\<rparr>) = Inr st'"
          and l: "dijkstras_loop vs cf tc f goal_v st' = Some (Inl AssertionError)"
          by (subst (asm) dijkstras_loop.simps) (auto split: sum.splits)
        from "1.IH"(2)[OF ne pop[symmetric] refl inrange nexp g ng r "1.prems"] l
        show False by simp
      qed
    qed
  qed
qed

text \<open>
  Claim C3. A negative cost makes \<^verbatim>\<open>distance\<close> raise AssertionError instead of returning.
  Whenever the search comes to expand a vertex and, after the neighbors before it have
  been handled, the evaluator returns a negative cost for a neighbor, the whole search
  returns that AssertionError: no cost and path are produced. And when every cost the
  evaluator returns is non-negative (and neither the evaluator nor the ground-truth
  function raises an AssertionError itself), the search never ends in AssertionError.
\<close>

theorem negative_cost_fails:
  "(cf u v f = Inr (c, xs, ys) \<longrightarrow> c < 0 \<longrightarrow> distance cf f u v ep = Inl AssertionError)
   \<and> (search_reaches vs cf f (Some g) (init_state (length vs) s) st \<longrightarrow>
        to_explore st \<noteq> [] \<longrightarrow> heappop (to_explore st) = ((bc, cur), rest) \<longrightarrow>
        cur < length (explored st) \<longrightarrow> \<not> explored st ! cur \<longrightarrow> cur \<noteq> g \<longrightarrow>
        vs ! cur = pre @ nb # post \<longrightarrow>
        relax_neighbors cf f bc cur pre
          (st\<lparr>to_explore := rest, explored := (explored st)[cur := True]\<rparr>) = Inr st1 \<longrightarrow>
        cf cur nb f = Inr (c', xs', ys') \<longrightarrow> c' < 0 \<longrightarrow>
        dijkstras vs cf tc f s (Some g) = Some (Inl AssertionError))
   \<and> (costs_nonneg cf f \<longrightarrow> no_assertion_inside cf tc f \<longrightarrow>
        dijkstras vs cf tc f s goal_v \<noteq> Some (Inl AssertionError))"
proof -
  have c1: "cf u v f = Inr (c, xs, ys) \<longrightarrow> c < 0 \<longrightarrow> distance cf f u v ep = Inl AssertionError"
    by (intro impI) (rule distance_negative)
  have c2: "search_reaches vs cf f (Some g) (init_state (length vs) s) st \<longrightarrow>
        to_explore st \<noteq> [] \<longrightarrow> heappop (to_explore st) = ((bc, cur), rest) \<longrightarrow>
        cur < length (explored st) \<longrightarrow> \<not> explored st ! cur \<longrightarrow> cur \<noteq> g \<longrightarrow>
        vs ! cur = pre @ nb # post \<longrightarrow>
        relax_neighbors cf f bc cur pre
          (st\<lparr>to_explore := rest, explored := (explored st)[cur := True]\<rparr>) = Inr st1 \<longrightarrow>
        cf cur nb f = Inr (c', xs', ys') \<longrightarrow> c' < 0 \<longrightarrow>
        dijkstras vs cf tc f s (Some g) = Some (Inl AssertionError)"
  proof (intro impI)
    assume r: "search_reaches vs cf f (Some g) (init_state (length vs) s) st"
      and h: "to_explore st \<noteq> []" "heappop (to_explore st) = ((bc, cur), rest)"
        "cur < length (explored st)" "\<not> explored st ! cur" "cur \<noteq> g"
        "vs ! cur = pre @ nb # post"
        "relax_neighbors cf f bc cur pre
          (st\<lparr>to_explore := rest, explored := (explored st)[cur := True]\<rparr>) = Inr st1"
        "cf cur nb f = Inr (c', xs', ys')" "c' < 0"
    show "dijkstras vs cf tc f s (Some g) = Some (Inl AssertionError)"
      unfolding dijkstras_def search_reaches_loop[OF r]
      by (rule dijkstras_loop_negative[OF h])
  qed
  have c3: "costs_nonneg cf f \<longrightarrow> no_assertion_inside cf tc f \<longrightarrow>
        dijkstras vs cf tc f s goal_v \<noteq> Some (Inl AssertionError)"
    unfolding dijkstras_def by (intro impI) (rule dijkstras_loop_no_assertion)
  show ?thesis by (intro conjI c1 c2 c3)
qed

lemma ex_state_reached:
  "search_reaches ex_vertices ex_cost_func ex_oracle_neg (Some 3) (init_state (length ex_vertices) 0) ex_state"
proof (rule reaches_expand[OF reaches_start, where best_cost = 0 and current = 0 and rest = "[]" and g = 3])
  show "to_explore (init_state (length ex_vertices) 0 :: (nat \<times> nat, int) search_state) \<noteq> []"
    by (simp add: init_state_def)
  show "heappop (to_explore (init_state (length ex_vertices) 0 :: (nat \<times> nat, int) search_state)) = ((0, 0), [])"
    by (simp add: init_state_def heappop_def)
  show "0 < length (explored (init_state (length ex_vertices) 0 :: (nat \<times> nat, int) search_state))"
    by (simp add: init_state_def ex_vertices_def)
  show "\<not> explored (init_state (length ex_vertices) 0 :: (nat \<times> nat, int) search_state) ! 0"
    by (simp add: init_state_def ex_vertices_def)
  show "Some (3::nat) = Some 3" by simp
  show "(0::nat) \<noteq> 3" by simp
  show "relax_neighbors ex_cost_func ex_oracle_neg 0 0 (ex_vertices ! 0)
     (init_state (length ex_vertices) 0
      \<lparr>to_explore := [],
         explored := (explored (init_state (length ex_vertices) 0))[0 := True]\<rparr>) = Inr ex_state"
    by code_simp
qed

theorem negative_cost_fails_witness:
  "distance ex_cost_func ex_oracle_neg 2 1 (trace ex_state) = Inl AssertionError
   \<and> dijkstras ex_vertices ex_cost_func ex_true_cost ex_oracle_neg 0 (Some 3) = Some (Inl AssertionError)
   \<and> dijkstras ex_vertices ex_cost_func ex_true_cost ex_oracle 0 (Some 3) \<noteq> Some (Inl AssertionError)"
proof -
  have neg: "ex_cost_func 2 1 ex_oracle_neg = Inr (- 2, [(2, 1)], [- 2])" "(- 2 :: int) < 0"
    by (simp_all add: ex_cost_func_def ex_oracle_neg_def)
  have pop: "to_explore ex_state \<noteq> []" "heappop (to_explore ex_state) = ((1, 2), [(4, 1)])"
    "2 < length (explored ex_state)" "\<not> explored ex_state ! 2" "(2::nat) \<noteq> 3"
    "ex_vertices ! 2 = [] @ 1 # [3]"
    by (simp_all add: ex_state_def heappop_def ex_vertices_def)
  have pre: "relax_neighbors ex_cost_func ex_oracle_neg 1 2 []
      (ex_state\<lparr>to_explore := [(4, 1)], explored := (explored ex_state)[2 := True]\<rparr>)
       = Inr (ex_state\<lparr>to_explore := [(4, 1)], explored := (explored ex_state)[2 := True]\<rparr>)"
    by simp
  have nn: "costs_nonneg ex_cost_func ex_oracle"
    by (auto simp: costs_nonneg_def ex_cost_func_def ex_oracle_def)
  have na: "no_assertion_inside ex_cost_func ex_true_cost ex_oracle"
    by (simp add: no_assertion_inside_def ex_cost_func_def ex_true_cost_def)
  note t = negative_cost_fails[where cf = ex_cost_func and f = ex_oracle_neg and tc = ex_true_cost
      and vs = ex_vertices and s = 0 and g = 3 and st = ex_state and u = 2 and v = 1
      and c = "- 2" and xs = "[(2, 1)]" and ys = "[- 2]" and ep = "trace ex_state"
      and bc = 1 and cur = 2 and rest = "[(4, 1)]" and pre = "[]" and nb = 1 and post = "[3]"
      and c' = "- 2" and xs' = "[(2, 1)]" and ys' = "[- 2]"
      and ?st1.0 = "ex_state\<lparr>to_explore := [(4, 1)], explored := (explored ex_state)[2 := True]\<rparr>"]
  note u = negative_cost_fails[where cf = ex_cost_func and f = ex_oracle and tc = ex_true_cost
      and vs = ex_vertices and s = 0 and goal_v = "Some 3"]
  have a: "distance ex_cost_func ex_oracle_neg 2 1 (trace ex_state) = Inl AssertionError"
    using t[THEN conjunct1] neg by simp
  have b: "dijkstras ex_vertices ex_cost_func ex_true_cost ex_oracle_neg 0 (Some 3)
             = Some (Inl AssertionError)"
    using t[THEN conjunct2, THEN conjunct1] ex_state_reached pop pre neg by simp
  have c: "dijkstras ex_vertices ex_cost_func ex_true_cost ex_oracle 0 (Some 3)
             \<noteq> Some (Inl AssertionError)"
    using u[THEN conjunct2, THEN conjunct2] nn na by simp
  show ?thesis by (intro conjI a b c)
qed

section \<open>Which neighbors are evaluated\<close>

lemma relax_neighbors_queries:
  "relax_neighbors cf f bc cur nbs st = Inr st' \<Longrightarrow>
     trace st' = extend_path (trace st) (concat (map (query_inputs cf f cur) nbs))
                   (concat (map (query_outputs cf f cur) nbs))"
proof (induction nbs arbitrary: st)
  case Nil
  then show ?case by (auto simp: extend_path_def)
next
  case (Cons nb nbs)
  from Cons.prems obtain sc ep where d: "distance cf f cur nb (trace st) = Inr (sc, ep)"
    by (auto split: sum.splits)
  then have ep: "ep = extend_path (trace st) (query_inputs cf f cur nb) (query_outputs cf f cur nb)"
    by (auto simp: distance_def query_inputs_def query_outputs_def Let_def
          split: sum.splits prod.splits if_splits)
  from Cons.prems d obtain st1 where
    st1: "relax_neighbors cf f bc cur nbs st1 = Inr st'" "trace st1 = ep"
    by (auto split: if_splits)
  from Cons.IH[OF st1(1)] st1(2) ep show ?case
    by (simp add: extend_path_def)
qed

lemma relax_explored_neighbor:
  "nb < length (explored st) \<Longrightarrow> explored st ! nb \<Longrightarrow> cf cur nb f = Inr (c, xs, ys) \<Longrightarrow> 0 \<le> c \<Longrightarrow>
     relax_neighbors cf f bc cur [nb] st = Inr (st\<lparr>trace := extend_path (trace st) xs ys\<rparr>)"
  by (simp add: distance_def)

text \<open>
  Claim C4, as stated, fails. In the search on the graph with an edge back to the start,
  vertex 0 is explored when vertex 1 is expanded, and the evaluator is still called on
  the edge from 1 to 0: its query is appended to the trace, and is part of the trace the
  run returns.
\<close>

theorem explored_neighbor_evaluated_counterexample:
  "explored back_state ! 0
   \<and> relax_neighbors ex_cost_func ex_oracle 4 1 [0] back_state
       = Inr (back_state\<lparr>trace := \<lparr>exe_x = [(0, 1), (1, 0)], exe_y = [4, 0]\<rparr>\<rparr>)
   \<and> snd (dijkstras_run_algorithm_on_f back_params ex_oracle)
       = Some (Inr (\<lparr>exe_x = [(0, 1), (1, 0), (1, 2)], exe_y = [4, 0, 0]\<rparr>, (Finite 4, [0, 1, 2])))"
  by code_simp

text \<open>
  Claim C4, amended. When a vertex is expanded, the evaluator is called once for each of
  its neighbors, in order, explored or not, and the queries it returns are appended to
  the trace. The explored flag only decides whether the neighbor is relaxed: for an
  explored neighbor the frontier, the costs and the predecessors stay as they are, and
  only the trace grows.
\<close>

theorem every_neighbor_evaluated:
  "(relax_neighbors cf f bc cur nbs st = Inr st' \<longrightarrow>
      trace st' = extend_path (trace st) (concat (map (query_inputs cf f cur) nbs))
                    (concat (map (query_outputs cf f cur) nbs)))
   \<and> (nb < length (explored st) \<longrightarrow> explored st ! nb \<longrightarrow> cf cur nb f = Inr (c, xs, ys) \<longrightarrow> 0 \<le> c \<longrightarrow>
      relax_neighbors cf f bc cur [nb] st = Inr (st\<lparr>trace := extend_path (trace st) xs ys\<rparr>))"
  using relax_neighbors_queries[of cf f bc cur nbs st st'] relax_explored_neighbor[of nb st cf cur f c xs ys bc]
  by (intro conjI impI)

theorem every_neighbor_evaluated_witness:
  "trace (back_state\<lparr>trace := \<lparr>exe_x = [(0, 1), (1, 0)], exe_y = [4, 0]\<rparr>\<rparr>)
     = extend_path (trace back_state) (concat (map (query_inputs ex_cost_func ex_oracle 1) [0]))
                    (concat (map (query_outputs ex_cost_func ex_oracle 1) [0]))
   \<and> relax_neighbors ex_cost_func ex_oracle 4 1 [0] back_state
       = Inr (back_state\<lparr>trace := extend_path (trace back_state) [(1, 0)] [0]\<rparr>)"
proof -
  have r: "relax_neighbors ex_cost_func ex_oracle 4 1 [0] back_state
       = Inr (back_state\<lparr>trace := \<lparr>exe_x = [(0, 1), (1, 0)], exe_y = [4, 0]\<rparr>\<rparr>)"
    by code_simp
  have h: "0 < length (explored back_state)" "explored back_state ! 0"
    "ex_cost_func 1 0 ex_oracle = Inr (0, [(1, 0)], [0])" "(0::int) \<le> 0"
    by (simp_all add: back_state_def ex_cost_func_def ex_oracle_def)
  note t = every_neighbor_evaluated[where cf = ex_cost_func and f = ex_oracle and bc = 4 and cur = 1
      and nbs = "[0]" and st = back_state and nb = 0 and c = 0 and xs = "[(1, 0)]" and ys = "[0]"
      and st' = "back_state\<lparr>trace := \<lparr>exe_x = [(0, 1), (1, 0)], exe_y = [4, 0]\<rparr>\<rparr>"]
  have a: "trace (back_state\<lparr>trace := \<lparr>exe_x = [(0, 1), (1, 0)], exe_y = [4, 0]\<rparr>\<rparr>)
     = extend_path (trace back_state) (concat (map (query_inputs ex_cost_func ex_oracle 1) [0]))
                    (concat (map (query_outputs ex_cost_func ex_oracle 1) [0]))"
    by (rule mp[OF t[THEN conjunct1] r])
  have b: "relax_neighbors ex_cost_func ex_oracle 4 1 [0] back_state
       = Inr (back_state\<lparr>trace := extend_path (trace back_state) [(1, 0)] [0]\<rparr>)"
    by (rule mp[OF mp[OF mp[OF mp[OF t[THEN conjunct2] h(1)] h(2)] h(3)] h(4)])
  show ?thesis by (intro conjI a b)
qed

section \<open>The parameter bundle after a run\<close>

lemma np_min_max_fail: "np_min grid = Inl e \<longleftrightarrow> np_max grid = Inl e"
  by (auto simp: np_min_def np_max_def split: sum.splits if_splits)







section \<open>Walks\<close>

lemma well_formedD:
  "well_formed vs \<Longrightarrow> u < length vs \<Longrightarrow> v \<in> set (vs ! u) \<Longrightarrow> v < length vs"
  by (auto simp: well_formed_def list_all_iff)

lemma nonneg_costsD:
  "nonneg_costs vs cf f \<Longrightarrow> u < length vs \<Longrightarrow> v \<in> set (vs ! u) \<Longrightarrow>
     \<exists>xs ys. cf u v f = Inr (edge_cost cf f u v, xs, ys) \<and> 0 \<le> edge_cost cf f u v"
  by (fastforce simp: nonneg_costs_def edge_cost_def)

lemma is_walk_Cons:
  "p \<noteq> [] \<Longrightarrow> is_walk vs (u # p) \<longleftrightarrow> u < length vs \<and> hd p \<in> set (vs ! u) \<and> is_walk vs p"
  by (cases p) auto

lemma walk_cost_Cons:
  "p \<noteq> [] \<Longrightarrow> walk_cost cf f (u # p) = edge_cost cf f u (hd p) + walk_cost cf f p"
  by (cases p) auto

lemma is_walk_vertices: "is_walk vs p \<Longrightarrow> v \<in> set p \<Longrightarrow> v < length vs"
  by (induction vs p rule: is_walk.induct) auto

lemma is_walk_last: "is_walk vs p \<Longrightarrow> last p < length vs"
  by (induction vs p rule: is_walk.induct) auto

lemma is_walk_snoc:
  "is_walk vs p \<Longrightarrow> b \<in> set (vs ! last p) \<Longrightarrow> b < length vs \<Longrightarrow> is_walk vs (p @ [b])"
  by (induction vs p rule: is_walk.induct) auto

lemma walk_cost_snoc:
  "p \<noteq> [] \<Longrightarrow> walk_cost cf f (p @ [b]) = walk_cost cf f p + edge_cost cf f (last p) b"
  by (induction cf f p rule: walk_cost.induct) auto

lemma walk_cost_nonneg:
  "nonneg_costs vs cf f \<Longrightarrow> is_walk vs p \<Longrightarrow> 0 \<le> walk_cost cf f p"
proof (induction vs p rule: is_walk.induct)
  case (3 vs u v rest)
  from nonneg_costsD[OF "3.prems"(1), of u v] "3.prems"(2) "3.IH"[OF "3.prems"(1)]
  show ?case by auto
qed auto

text \<open>
  A walk that starts inside a set of vertices and ends outside of it leaves the set
  along some edge; up to and including that edge it costs no more than the whole walk.
\<close>

lemma walk_crossing:
  assumes "nonneg_costs vs cf f" "is_walk vs q" "S (hd q)" "\<not> S (last q)"
  shows "\<exists>q1 a b. is_walk vs (q1 @ [a]) \<and> hd (q1 @ [a]) = hd q \<and> S a \<and> \<not> S b
           \<and> a < length vs \<and> b \<in> set (vs ! a)
           \<and> walk_cost cf f (q1 @ [a]) + edge_cost cf f a b \<le> walk_cost cf f q"
  using assms
proof (induction vs q rule: is_walk.induct)
  case (1 vs)
  then show ?case by simp
next
  case (2 vs u)
  then show ?case by simp
next
  case (3 vs u v rest)
  note nn = "3.prems"(1)
  from "3.prems"(2) have e: "u < length vs" "v \<in> set (vs ! u)" and w: "is_walk vs (v # rest)"
    by auto
  from "3.prems" have Su: "S u" and nl: "\<not> S (last (v # rest))" by auto
  show ?case
  proof (cases "S v")
    case False
    have "0 \<le> walk_cost cf f (v # rest)" by (rule walk_cost_nonneg[OF nn w])
    then have "walk_cost cf f ([] @ [u]) + edge_cost cf f u v \<le> walk_cost cf f (u # v # rest)"
      by simp
    moreover have "is_walk vs ([] @ [u])" "hd ([] @ [u]) = hd (u # v # rest)"
      using e by simp_all
    ultimately show ?thesis using Su False e by blast
  next
    case True
    from "3.IH"[OF nn w] True nl obtain q1 a b where
      h: "is_walk vs (q1 @ [a])" "hd (q1 @ [a]) = v" "S a" "\<not> S b" "a < length vs"
        "b \<in> set (vs ! a)"
        "walk_cost cf f (q1 @ [a]) + edge_cost cf f a b \<le> walk_cost cf f (v # rest)"
      by auto
    have ne: "q1 @ [a] \<noteq> []" by simp
    have "is_walk vs ((u # q1) @ [a])"
      using is_walk_Cons[OF ne, of vs u] h(1,2) e by simp
    moreover have "hd ((u # q1) @ [a]) = hd (u # v # rest)" by simp
    moreover have "walk_cost cf f ((u # q1) @ [a]) + edge_cost cf f a b
                     \<le> walk_cost cf f (u # v # rest)"
      using walk_cost_Cons[OF ne, of cf f u] h(2,7) by simp
    ultimately show ?thesis using h(3-6) by blast
  qed
qed

section \<open>The frontier, the predecessor links and the ground-truth cost\<close>

lemma heappop_least:
  assumes "h \<noteq> []" "heappop h = ((c, v), rest)"
  shows "(c, v) \<in> set h" and "(c', v') \<in> set h \<Longrightarrow> c \<le> c'"
    and "set rest \<subseteq> set h" and "e \<in> set h \<Longrightarrow> e \<noteq> (c, v) \<Longrightarrow> e \<in> set rest"
proof -
  from assms have m: "(c, v) = Min (set h)" and r: "rest = remove1 (c, v) h"
    by (auto simp: heappop_def Let_def)
  from m assms(1) show "(c, v) \<in> set h"
    by (metis Min_in List.finite_set set_empty)
  { assume "(c', v') \<in> set h"
    then have "(c, v) \<le> (c', v')" using m by simp
    then show "c \<le> c'" by (auto simp: less_eq_prod_def) }
  from r show "set rest \<subseteq> set h" by (simp add: set_remove1_subset)
  { assume "e \<in> set h" "e \<noteq> (c, v)"
    with r show "e \<in> set rest" by simp }
qed

lemma backtrack_loop_settled:
  assumes "explored_settled vs cf f s P st" "length (prev st) = length vs"
  shows "u < length vs \<Longrightarrow> explored st ! u \<Longrightarrow>
           backtrack_loop (Some u) (prev st) acc = Some (Inr (P u @ acc))"
proof (induction "length (P u)" arbitrary: u acc rule: less_induct)
  case less
  from assms(1) less.prems have
    d: "(u = s \<and> P u = [s] \<and> prev st ! u = None)
         \<or> (\<exists>a. a < length vs \<and> explored st ! a \<and> prev st ! u = Some a \<and> P u = P a @ [u])"
    unfolding explored_settled_def by blast
  show ?case
  proof (cases "prev st ! u")
    case None
    with d have "P u = [u]" by auto
    with None less.prems(1) assms(2) show ?thesis
      by (subst backtrack_loop.simps, simp, subst backtrack_loop.simps, simp)
  next
    case (Some a)
    with d have a: "a < length vs" "explored st ! a" "P u = P a @ [u]" by auto
    from a(3) have "length (P a) < length (P u)" by simp
    from less.hyps[OF this a(1,2), of "u # acc"] Some a(3) less.prems(1) assms(2)
    show ?thesis by (subst backtrack_loop.simps) simp
  qed
qed


section \<open>The invariant is kept\<close>

lemma not_ecost_less:
  "\<not> ecost_less k m \<Longrightarrow> \<exists>c. m = Finite c \<and> c \<le> k"
  by (cases m) auto

text \<open>A neighbor that is not relaxed: only the trace changes.\<close>

lemma search_inv_keep:
  assumes inv: "search_inv vs cf f s P D st"
    and skip: "explored st ! nb \<or> \<not> ecost_less (walk_cost cf f (P cur) + edge_cost cf f cur nb) (min_cost st ! nb)"
  shows "search_inv vs cf f s P (D \<union> {(cur, nb)}) (st\<lparr>trace := ep\<rparr>)"
proof -
  from inv have er: "edges_relaxed cf f P D st" by (simp add: search_inv_def)
  have "edges_relaxed cf f P (D \<union> {(cur, nb)}) (st\<lparr>trace := ep\<rparr>)"
    unfolding edges_relaxed_def
  proof (intro allI impI)
    fix a b
    assume ab: "(a, b) \<in> D \<union> {(cur, nb)}" and ne: "\<not> explored (st\<lparr>trace := ep\<rparr>) ! b"
    show "\<exists>c. min_cost (st\<lparr>trace := ep\<rparr>) ! b = Finite c
            \<and> c \<le> walk_cost cf f (P a) + edge_cost cf f a b"
    proof (cases "(a, b) \<in> D")
      case True
      with er ne show ?thesis unfolding edges_relaxed_def by simp
    next
      case False
      with ab have "a = cur" "b = nb" by auto
      with skip ne not_ecost_less show ?thesis by auto
    qed
  qed
  with inv show ?thesis
    by (simp add: search_inv_def explored_settled_def frontier_sound_def heap_bounded_def)
qed

text \<open>A neighbor that is relaxed: it is pushed with its new cost and predecessor.\<close>

lemma search_inv_relax:
  assumes inv: "search_inv vs cf f s P D st"
    and cur: "cur < length vs" "explored st ! cur"
    and nb: "nb < length vs" "nb \<in> set (vs ! cur)" "\<not> explored st ! nb"
    and k: "k = walk_cost cf f (P cur) + edge_cost cf f cur nb"
    and less: "ecost_less k (min_cost st ! nb)"
  shows "search_inv vs cf f s P (D \<union> {(cur, nb)})
           (st\<lparr>to_explore := heappush (to_explore st) (k, nb),
               min_cost := (min_cost st)[nb := Finite k],
               prev := (prev st)[nb := Some cur],
               trace := ep\<rparr>)"
    (is "search_inv vs cf f s P ?D ?st")
proof -
  from inv have len: "length (explored st) = length vs" "length (min_cost st) = length vs"
      "length (prev st) = length vs" "s < length vs" "explored st ! s"
    and es: "explored_settled vs cf f s P st" and er: "edges_relaxed cf f P D st"
    and fs: "frontier_sound vs cf f P st" and hb: "heap_bounded vs st"
    by (simp_all add: search_inv_def)
  have mc_nb: "min_cost ?st ! nb = Finite k" using nb(1) len(2) by simp
  have mc_other: "\<And>b. b \<noteq> nb \<Longrightarrow> min_cost ?st ! b = min_cost st ! b" by simp
  have pv_nb: "prev ?st ! nb = Some cur" using nb(1) len(3) by simp
  have pv_other: "\<And>b. b \<noteq> nb \<Longrightarrow> prev ?st ! b = prev st ! b" by simp
  have ex: "explored ?st = explored st" by simp
  have heap: "set (to_explore ?st) = insert (k, nb) (set (to_explore st))"
    by (simp add: heappush_def)
  have old_less: "\<And>c0. min_cost st ! nb = Finite c0 \<Longrightarrow> k < c0"
    using less by simp
  have es': "explored_settled vs cf f s P ?st"
    unfolding explored_settled_def
  proof (intro allI impI)
    fix u assume u: "u < length vs" "explored ?st ! u"
    then have "u \<noteq> nb" using nb(3) by auto
    with es u pv_other[of u]
    show "walk_from_to vs s u (P u)
        \<and> (\<forall>q. walk_from_to vs s u q \<longrightarrow> walk_cost cf f (P u) \<le> walk_cost cf f q)
        \<and> ((u = s \<and> P u = [s] \<and> prev ?st ! u = None)
           \<or> (\<exists>a. a < length vs \<and> explored ?st ! a \<and> prev ?st ! u = Some a \<and> P u = P a @ [u]))"
      unfolding explored_settled_def ex by simp
  qed
  have er': "edges_relaxed cf f P ?D ?st"
    unfolding edges_relaxed_def
  proof (intro allI impI)
    fix a b
    assume ab: "(a, b) \<in> ?D" and ne: "\<not> explored ?st ! b"
    show "\<exists>c. min_cost ?st ! b = Finite c \<and> c \<le> walk_cost cf f (P a) + edge_cost cf f a b"
    proof (cases "b = nb")
      case True
      show ?thesis
      proof (cases "(a, b) \<in> D")
        case inD: True
        with er ne obtain c0 where
          "min_cost st ! b = Finite c0" "c0 \<le> walk_cost cf f (P a) + edge_cost cf f a b"
          unfolding edges_relaxed_def ex by blast
        with old_less[of c0] True mc_nb show ?thesis by simp
      next
        case False
        with ab have "a = cur" by auto
        with True mc_nb k show ?thesis by simp
      qed
    next
      case False
      with ab have "(a, b) \<in> D" by auto
      with er ne mc_other[OF False] show ?thesis
        unfolding edges_relaxed_def ex by simp
    qed
  qed
  have fs': "frontier_sound vs cf f P ?st"
    unfolding frontier_sound_def
  proof (intro allI impI)
    fix b c
    assume b: "b < length vs" "\<not> explored ?st ! b" "min_cost ?st ! b = Finite c"
    show "(c, b) \<in> set (to_explore ?st)
        \<and> (\<exists>a. a < length vs \<and> explored ?st ! a \<and> prev ?st ! b = Some a \<and> b \<in> set (vs ! a)
               \<and> c = walk_cost cf f (P a) + edge_cost cf f a b)"
    proof (cases "b = nb")
      case True
      with b(3) mc_nb have "c = k" by simp
      with True heap pv_nb cur nb(2) k show ?thesis unfolding ex by auto
    next
      case False
      with fs b mc_other[OF False] pv_other[OF False] heap show ?thesis
        unfolding frontier_sound_def ex by auto
    qed
  qed
  have hb': "heap_bounded vs ?st"
    unfolding heap_bounded_def
  proof (intro allI impI)
    fix c v
    assume cv: "(c, v) \<in> set (to_explore ?st)"
    show "v < length vs \<and> (\<not> explored ?st ! v \<longrightarrow> (\<exists>c'. min_cost ?st ! v = Finite c' \<and> c' \<le> c))"
    proof (cases "(c, v) = (k, nb)")
      case True
      with nb(1) mc_nb show ?thesis by auto
    next
      case False
      with cv heap have old: "(c, v) \<in> set (to_explore st)" by auto
      with hb have v: "v < length vs"
        and b: "\<not> explored st ! v \<longrightarrow> (\<exists>c'. min_cost st ! v = Finite c' \<and> c' \<le> c)"
        unfolding heap_bounded_def by blast+
      show ?thesis
      proof (cases "v = nb")
        case True
        with b nb(3) obtain c' where "min_cost st ! nb = Finite c'" "c' \<le> c" by auto
        with old_less[of c'] True mc_nb v show ?thesis by auto
      next
        case False
        with v b mc_other[OF False] show ?thesis unfolding ex by auto
      qed
    qed
  qed
  from len es' er' fs' hb' show ?thesis
    by (simp add: search_inv_def)
qed

lemma relax_neighbors_inv:
  assumes wf: "well_formed vs" and nn: "nonneg_costs vs cf f" and cur: "cur < length vs"
  shows "set nbs \<subseteq> set (vs ! cur) \<Longrightarrow> explored st ! cur \<Longrightarrow> search_inv vs cf f s P D st \<Longrightarrow>
     \<exists>st'. relax_neighbors cf f (walk_cost cf f (P cur)) cur nbs st = Inr st'
          \<and> explored st' = explored st
          \<and> search_inv vs cf f s P (D \<union> {(cur, b) |b. b \<in> set nbs}) st'"
proof (induction nbs arbitrary: st D)
  case Nil
  then show ?case by simp
next
  case (Cons nb nbs)
  let ?bc = "walk_cost cf f (P cur)"
  let ?w = "edge_cost cf f cur nb"
  from Cons.prems(1) have nbin: "nb \<in> set (vs ! cur)" and rest: "set nbs \<subseteq> set (vs ! cur)"
    by auto
  from well_formedD[OF wf cur nbin] have nb: "nb < length vs" .
  from nonneg_costsD[OF nn cur nbin] obtain xs ys where
    c: "cf cur nb f = Inr (?w, xs, ys)" "0 \<le> ?w" by blast
  let ?ep = "extend_path (trace st) xs ys"
  have d: "distance cf f cur nb (trace st) = Inr (?w, ?ep)"
    using c by (simp add: distance_def)
  from Cons.prems(3) have len: "length (explored st) = length vs" by (simp add: search_inv_def)
  have D: "D \<union> {(cur, b) |b. b \<in> set (nb # nbs)} = (D \<union> {(cur, nb)}) \<union> {(cur, b) |b. b \<in> set nbs}"
    by auto
  show ?case
  proof (cases "\<not> explored st ! nb \<and> ecost_less (?bc + ?w) (min_cost st ! nb)")
    case True
    let ?st1 = "st\<lparr>to_explore := heappush (to_explore st) (?bc + ?w, nb),
                   min_cost := (min_cost st)[nb := Finite (?bc + ?w)],
                   prev := (prev st)[nb := Some cur],
                   trace := ?ep\<rparr>"
    have step: "relax_neighbors cf f ?bc cur (nb # nbs) st = relax_neighbors cf f ?bc cur nbs ?st1"
      using d True nb len by simp
    have inv1: "search_inv vs cf f s P (D \<union> {(cur, nb)}) ?st1"
      using search_inv_relax[OF Cons.prems(3) cur Cons.prems(2) nb nbin _ refl] True by blast
    have "explored ?st1 ! cur" using Cons.prems(2) by simp
    from Cons.IH[OF rest this inv1] step show ?thesis unfolding D by auto
  next
    case False
    let ?st1 = "st\<lparr>trace := ?ep\<rparr>"
    have step: "relax_neighbors cf f ?bc cur (nb # nbs) st = relax_neighbors cf f ?bc cur nbs ?st1"
      using d False nb len by auto
    have inv1: "search_inv vs cf f s P (D \<union> {(cur, nb)}) ?st1"
      using search_inv_keep[OF Cons.prems(3)] False by blast
    have "explored ?st1 ! cur" using Cons.prems(2) by simp
    from Cons.IH[OF rest this inv1] step show ?thesis unfolding D by auto
  qed
qed

text \<open>A stale entry is dropped.\<close>

lemma search_inv_stale:
  assumes inv: "search_inv vs cf f s P D st" and ne: "to_explore st \<noteq> []"
    and pop: "heappop (to_explore st) = ((bc, cur), rest)" and ex: "explored st ! cur"
  shows "search_inv vs cf f s P D (st\<lparr>to_explore := rest\<rparr>)"
proof -
  note hp = heappop_least[OF ne pop]
  from inv have fs: "frontier_sound vs cf f P st" and hb: "heap_bounded vs st"
    by (simp_all add: search_inv_def)
  have fs': "frontier_sound vs cf f P (st\<lparr>to_explore := rest\<rparr>)"
    unfolding frontier_sound_def
  proof (intro allI impI)
    fix b c
    assume b: "b < length vs" "\<not> explored (st\<lparr>to_explore := rest\<rparr>) ! b"
      "min_cost (st\<lparr>to_explore := rest\<rparr>) ! b = Finite c"
    with fs have old: "(c, b) \<in> set (to_explore st)"
      "\<exists>a. a < length vs \<and> explored st ! a \<and> prev st ! b = Some a \<and> b \<in> set (vs ! a)
               \<and> c = walk_cost cf f (P a) + edge_cost cf f a b"
      unfolding frontier_sound_def by auto
    from b(2) ex have "(c, b) \<noteq> (bc, cur)" by auto
    from hp(4)[OF old(1) this] old(2)
    show "(c, b) \<in> set (to_explore (st\<lparr>to_explore := rest\<rparr>))
        \<and> (\<exists>a. a < length vs \<and> explored (st\<lparr>to_explore := rest\<rparr>) ! a
               \<and> prev (st\<lparr>to_explore := rest\<rparr>) ! b = Some a \<and> b \<in> set (vs ! a)
               \<and> c = walk_cost cf f (P a) + edge_cost cf f a b)"
      by simp
  qed
  have hb': "heap_bounded vs (st\<lparr>to_explore := rest\<rparr>)"
    using hb hp(3) unfolding heap_bounded_def by auto
  from inv fs' hb' show ?thesis
    by (simp add: search_inv_def explored_settled_def edges_relaxed_def)
qed

text \<open>
  An entry popped for a vertex that is not explored carries the cost of a cheapest walk
  to that vertex: the vertex is settled.
\<close>

lemma search_inv_explore:
  assumes wf: "well_formed vs" and nn: "nonneg_costs vs cf f"
    and inv: "search_inv vs cf f s P (explored_edges vs st) st" and ne: "to_explore st \<noteq> []"
    and pop: "heappop (to_explore st) = ((bc, cur), rest)" and nex: "\<not> explored st ! cur"
  shows "cur < length vs \<and>
     (\<exists>P'. search_inv vs cf f s P' (explored_edges vs st)
              (st\<lparr>to_explore := rest, explored := (explored st)[cur := True]\<rparr>)
           \<and> bc = walk_cost cf f (P' cur))"
proof -
  let ?st = "st\<lparr>to_explore := rest, explored := (explored st)[cur := True]\<rparr>"
  note hp = heappop_least[OF ne pop]
  from inv have len: "length (explored st) = length vs" "length (min_cost st) = length vs"
      "length (prev st) = length vs" "s < length vs" "explored st ! s"
    and es: "explored_settled vs cf f s P st"
    and er: "edges_relaxed cf f P (explored_edges vs st) st"
    and fs: "frontier_sound vs cf f P st" and hb: "heap_bounded vs st"
    by (simp_all add: search_inv_def)
  from hb hp(1) nex obtain c' where cur: "cur < length vs"
    and c': "min_cost st ! cur = Finite c'" "c' \<le> bc"
    unfolding heap_bounded_def by blast
  from fs cur nex c'(1) obtain a where
    inheap: "(c', cur) \<in> set (to_explore st)"
    and a: "a < length vs" "explored st ! a" "prev st ! cur = Some a" "cur \<in> set (vs ! a)"
      "c' = walk_cost cf f (P a) + edge_cost cf f a cur"
    unfolding frontier_sound_def by blast
  from hp(2)[OF inheap] c'(2) have bc: "bc = c'" by simp
  define P' where "P' = P(cur := P a @ [cur])"
  have P'_old: "\<And>u. explored st ! u \<Longrightarrow> P' u = P u"
    using nex by (auto simp: P'_def)
  have P'_cur: "P' cur = P a @ [cur]" by (simp add: P'_def)
  have ex_new: "\<And>u. explored ?st ! u \<longleftrightarrow> u = cur \<or> explored st ! u"
    using cur len(1) by (auto simp: nth_list_update)
  from es a(1,2) have wa: "walk_from_to vs s a (P a)"
    unfolding explored_settled_def by blast
  then have Pa: "is_walk vs (P a)" "hd (P a) = s" "last (P a) = a" "P a \<noteq> []"
    by (auto simp: walk_from_to_def)
  have w_cur: "walk_from_to vs s cur (P' cur)"
    using is_walk_snoc[OF Pa(1), of cur] Pa a(4) cur
    by (simp add: walk_from_to_def P'_cur)
  have cost_cur: "walk_cost cf f (P' cur) = bc"
    using walk_cost_snoc[OF Pa(4), of cf f cur] Pa(3) a(5) bc by (simp add: P'_cur)
  have opt_cur: "walk_cost cf f (P' cur) \<le> walk_cost cf f q" if q: "walk_from_to vs s cur q" for q
  proof -
    from q have qw: "is_walk vs q" "hd q = s" "last q = cur" by (auto simp: walk_from_to_def)
    from walk_crossing[OF nn qw(1), of "\<lambda>v. explored st ! v"] qw(2,3) len(5) nex
    obtain q1 a0 b0 where x: "is_walk vs (q1 @ [a0])" "hd (q1 @ [a0]) = s" "explored st ! a0"
      "\<not> explored st ! b0" "a0 < length vs" "b0 \<in> set (vs ! a0)"
      "walk_cost cf f (q1 @ [a0]) + edge_cost cf f a0 b0 \<le> walk_cost cf f q"
      by auto
    have "walk_from_to vs s a0 (q1 @ [a0])" using x(1,2) by (simp add: walk_from_to_def)
    with es x(3,5) have 1: "walk_cost cf f (P a0) \<le> walk_cost cf f (q1 @ [a0])"
      unfolding explored_settled_def by blast
    have "(a0, b0) \<in> explored_edges vs st" using x(3,5,6) by (simp add: explored_edges_def)
    with er x(4) obtain c0 where
      c0: "min_cost st ! b0 = Finite c0" "c0 \<le> walk_cost cf f (P a0) + edge_cost cf f a0 b0"
      unfolding edges_relaxed_def by blast
    from well_formedD[OF wf x(5,6)] have "b0 < length vs" .
    with fs x(4) c0(1) have "(c0, b0) \<in> set (to_explore st)"
      unfolding frontier_sound_def by blast
    from hp(2)[OF this] have "bc \<le> c0" .
    with c0(2) 1 x(7) cost_cur show ?thesis by linarith
  qed
  have es': "explored_settled vs cf f s P' ?st"
    unfolding explored_settled_def
  proof (intro allI impI)
    fix u assume u: "u < length vs" "explored ?st ! u"
    show "walk_from_to vs s u (P' u)
        \<and> (\<forall>q. walk_from_to vs s u q \<longrightarrow> walk_cost cf f (P' u) \<le> walk_cost cf f q)
        \<and> ((u = s \<and> P' u = [s] \<and> prev ?st ! u = None)
           \<or> (\<exists>a. a < length vs \<and> explored ?st ! a \<and> prev ?st ! u = Some a \<and> P' u = P' a @ [u]))"
    proof (cases "u = cur")
      case True
      have "\<exists>a. a < length vs \<and> explored ?st ! a \<and> prev ?st ! cur = Some a \<and> P' cur = P' a @ [cur]"
        using a(1,2,3) P'_old[OF a(2)] P'_cur ex_new by auto
      with True w_cur opt_cur show ?thesis by blast
    next
      case False
      with u(2) ex_new have old: "explored st ! u" by simp
      with es u(1) have
        o: "walk_from_to vs s u (P u)"
          "\<forall>q. walk_from_to vs s u q \<longrightarrow> walk_cost cf f (P u) \<le> walk_cost cf f q"
          "(u = s \<and> P u = [s] \<and> prev st ! u = None)
           \<or> (\<exists>a. a < length vs \<and> explored st ! a \<and> prev st ! u = Some a \<and> P u = P a @ [u])"
        unfolding explored_settled_def by blast+
      from o(3) have "(u = s \<and> P' u = [s] \<and> prev ?st ! u = None)
           \<or> (\<exists>a. a < length vs \<and> explored ?st ! a \<and> prev ?st ! u = Some a \<and> P' u = P' a @ [u])"
      proof
        assume "u = s \<and> P u = [s] \<and> prev st ! u = None"
        then show ?thesis using P'_old[OF old] by auto
      next
        assume "\<exists>a. a < length vs \<and> explored st ! a \<and> prev st ! u = Some a \<and> P u = P a @ [u]"
        then obtain a1 where "a1 < length vs" "explored st ! a1" "prev st ! u = Some a1"
          "P u = P a1 @ [u]" by blast
        then have "a1 < length vs \<and> explored ?st ! a1 \<and> prev ?st ! u = Some a1
                    \<and> P' u = P' a1 @ [u]"
          using P'_old[OF old] P'_old[of a1] ex_new by simp
        then show ?thesis by blast
      qed
      with o(1,2) P'_old[OF old] show ?thesis by simp
    qed
  qed
  have er': "edges_relaxed cf f P' (explored_edges vs st) ?st"
    unfolding edges_relaxed_def
  proof (intro allI impI)
    fix a0 b0
    assume ab: "(a0, b0) \<in> explored_edges vs st" and nb: "\<not> explored ?st ! b0"
    from ab have "explored st ! a0" by (simp add: explored_edges_def)
    from P'_old[OF this] nb ex_new er ab
    show "\<exists>c. min_cost ?st ! b0 = Finite c \<and> c \<le> walk_cost cf f (P' a0) + edge_cost cf f a0 b0"
      unfolding edges_relaxed_def by simp
  qed
  have fs': "frontier_sound vs cf f P' ?st"
    unfolding frontier_sound_def
  proof (intro allI impI)
    fix b c
    assume b: "b < length vs" "\<not> explored ?st ! b" "min_cost ?st ! b = Finite c"
    from b(2) ex_new have nb: "b \<noteq> cur" "\<not> explored st ! b" by auto
    with fs b(1,3) obtain a1 where old: "(c, b) \<in> set (to_explore st)"
      "a1 < length vs" "explored st ! a1" "prev st ! b = Some a1" "b \<in> set (vs ! a1)"
      "c = walk_cost cf f (P a1) + edge_cost cf f a1 b"
      unfolding frontier_sound_def by auto
    from nb(1) have "(c, b) \<noteq> (bc, cur)" by simp
    from hp(4)[OF old(1) this] have "(c, b) \<in> set (to_explore ?st)" by simp
    moreover have "a1 < length vs \<and> explored ?st ! a1 \<and> prev ?st ! b = Some a1 \<and> b \<in> set (vs ! a1)
               \<and> c = walk_cost cf f (P' a1) + edge_cost cf f a1 b"
      using old(2-) P'_old[OF old(3)] ex_new by simp
    ultimately show "(c, b) \<in> set (to_explore ?st)
        \<and> (\<exists>a. a < length vs \<and> explored ?st ! a \<and> prev ?st ! b = Some a \<and> b \<in> set (vs ! a)
               \<and> c = walk_cost cf f (P' a) + edge_cost cf f a b)"
      by blast
  qed
  have hb': "heap_bounded vs ?st"
    unfolding heap_bounded_def
  proof (intro allI impI)
    fix c v
    assume "(c, v) \<in> set (to_explore ?st)"
    with hp(3) have "(c, v) \<in> set (to_explore st)" by auto
    with hb have "v < length vs"
      "\<not> explored st ! v \<longrightarrow> (\<exists>c'. min_cost st ! v = Finite c' \<and> c' \<le> c)"
      unfolding heap_bounded_def by blast+
    then show "v < length vs \<and> (\<not> explored ?st ! v \<longrightarrow> (\<exists>c'. min_cost ?st ! v = Finite c' \<and> c' \<le> c))"
      using ex_new by simp
  qed
  have "search_inv vs cf f s P' (explored_edges vs st) ?st"
    using len es' er' fs' hb' ex_new by (simp add: search_inv_def)
  with cur cost_cur show ?thesis by blast
qed

section \<open>What the search returns\<close>

lemma explored_edges_expand:
  "cur < length vs \<Longrightarrow> length (explored st) = length vs \<Longrightarrow>
   explored st' = (explored st)[cur := True] \<Longrightarrow>
     explored_edges vs st' = explored_edges vs st \<union> {(cur, b) |b. b \<in> set (vs ! cur)}"
  by (auto simp: explored_edges_def nth_list_update split: if_splits)

lemma dijkstras_loop_correct:
  "well_formed vs \<Longrightarrow> nonneg_costs vs cf f \<Longrightarrow>
   search_inv vs cf f s P (explored_edges vs st) st \<Longrightarrow> goal_v = Some g \<Longrightarrow>
   \<not> (g < length vs \<and> explored st ! g) \<Longrightarrow>
     search_outcome vs cf tc f s g (dijkstras_loop vs cf tc f goal_v st)"
proof (induction vs cf tc f goal_v st arbitrary: P rule: dijkstras_loop.induct)
  case (1 vs cf tc f goal_v st)
  note wf = "1.prems"(1) and nn = "1.prems"(2) and inv = "1.prems"(3) and g = "1.prems"(4)
    and gun = "1.prems"(5)
  from inv have len: "length (explored st) = length vs" "length (prev st) = length vs"
      "s < length vs" "explored st ! s"
    and er: "edges_relaxed cf f P (explored_edges vs st) st"
    and fs: "frontier_sound vs cf f P st" and hb: "heap_bounded vs st"
    by (simp_all add: search_inv_def)
  show ?case
  proof (cases "to_explore st = []")
    case True
    have nowalk: "\<not> walk_from_to vs s g q" for q
    proof
      assume q: "walk_from_to vs s g q"
      then have qw: "is_walk vs q" "hd q = s" "last q = g" by (auto simp: walk_from_to_def)
      from is_walk_last[OF qw(1)] qw(3) gun have "\<not> explored st ! g" by simp
      with walk_crossing[OF nn qw(1), of "\<lambda>v. explored st ! v"] qw(2,3) len(4)
      obtain a0 b0 where x: "explored st ! a0" "\<not> explored st ! b0" "a0 < length vs"
        "b0 \<in> set (vs ! a0)"
        by auto
      have "(a0, b0) \<in> explored_edges vs st" using x by (simp add: explored_edges_def)
      with er x(2) obtain c0 where "min_cost st ! b0 = Finite c0"
        unfolding edges_relaxed_def by blast
      with fs x(2) well_formedD[OF wf x(3,4)] have "(c0, b0) \<in> set (to_explore st)"
        unfolding frontier_sound_def by blast
      with True show False by simp
    qed
    have "dijkstras_loop vs cf tc f goal_v st = Some (Inr (trace st, (Infinity, [])))"
      using True by (subst dijkstras_loop.simps) simp
    with nowalk show ?thesis unfolding search_outcome_def by blast
  next
    case ne: False
    obtain bc cur rest where pop: "heappop (to_explore st) = ((bc, cur), rest)"
      by (metis prod.exhaust)
    from heappop_least(1)[OF ne pop] hb have cur: "cur < length vs"
      unfolding heap_bounded_def by blast
    then have inrange: "\<not> length (explored st) \<le> cur" using len(1) by simp
    show ?thesis
    proof (cases "explored st ! cur")
      case True
      let ?st = "st\<lparr>to_explore := rest\<rparr>"
      have l: "dijkstras_loop vs cf tc f goal_v st = dijkstras_loop vs cf tc f goal_v ?st"
        using ne pop inrange True by (subst dijkstras_loop.simps) simp
      have "explored_edges vs ?st = explored_edges vs st" by (simp add: explored_edges_def)
      with search_inv_stale[OF inv ne pop True]
      have "search_inv vs cf f s P (explored_edges vs ?st) ?st" by simp
      from "1.IH"(1)[OF ne pop[symmetric] refl inrange True wf nn this g] gun l
      show ?thesis by simp
    next
      case nexp: False
      let ?st = "st\<lparr>to_explore := rest, explored := (explored st)[cur := True]\<rparr>"
      from search_inv_explore[OF wf nn inv ne pop nexp] obtain P' where
        inv2: "search_inv vs cf f s P' (explored_edges vs st) ?st"
        and bc: "bc = walk_cost cf f (P' cur)"
        by blast
      have ex_cur: "explored ?st ! cur" using cur len(1) by simp
      show ?thesis
      proof (cases "cur = g")
        case True
        from inv2 have es2: "explored_settled vs cf f s P' ?st" by (simp add: search_inv_def)
        from es2 cur ex_cur have
          w: "walk_from_to vs s cur (P' cur)"
          and opt: "\<forall>q. walk_from_to vs s cur q \<longrightarrow> walk_cost cf f (P' cur) \<le> walk_cost cf f q"
          unfolding explored_settled_def by blast+
        have "backtrack_loop (Some cur) (prev ?st) [] = Some (Inr (P' cur @ []))"
          by (rule backtrack_loop_settled[OF es2 _ cur ex_cur]) (simp add: len)
        then have bt: "backtrack_indices cur (prev st) = Some (Inr (P' cur))"
          by (simp add: backtrack_indices_def)
        from w have "list_all (\<lambda>i. i < length vs) (P' cur)"
          using is_walk_vertices[of vs "P' cur"] by (auto simp: walk_from_to_def list_all_iff)
        with bt have "dijkstras_loop vs cf tc f goal_v st =
            (case true_cost_of_path tc 0 (P' cur) of
               Inl e \<Rightarrow> Some (Inl e)
             | Inr c \<Rightarrow> Some (Inr (trace st, (Finite (walk_cost cf f (P' cur)), P' cur))))"
          using ne pop inrange nexp g True[symmetric] bc by (subst dijkstras_loop.simps) simp
        with w opt True show ?thesis unfolding search_outcome_def by blast
      next
        case ng: False
        from relax_neighbors_inv[OF wf nn cur subset_refl ex_cur inv2] bc obtain st' where
          r: "relax_neighbors cf f bc cur (vs ! cur) ?st = Inr st'"
          and ex': "explored st' = explored ?st"
          and inv3: "search_inv vs cf f s P'
                       (explored_edges vs st \<union> {(cur, b) |b. b \<in> set (vs ! cur)}) st'"
          by auto
        from ex' have ex'': "explored st' = (explored st)[cur := True]" by simp
        from inv3 explored_edges_expand[OF cur len(1) ex'']
        have inv4: "search_inv vs cf f s P' (explored_edges vs st') st'" by simp
        have gun': "\<not> (g < length vs \<and> explored st' ! g)"
          using gun ng ex'' by (simp add: nth_list_update)
        have l: "dijkstras_loop vs cf tc f goal_v st = dijkstras_loop vs cf tc f goal_v st'"
          using ne pop inrange nexp g ng r by (subst dijkstras_loop.simps) simp
        from "1.IH"(2)[OF ne pop[symmetric] refl inrange nexp g ng r wf nn inv4 g gun'] l
        show ?thesis by simp
      qed
    qed
  qed
qed

lemma dijkstras_correct:
  assumes wf: "well_formed vs" and nn: "nonneg_costs vs cf f" and s: "s < length vs"
  shows "search_outcome vs cf tc f s g (dijkstras vs cf tc f s (Some g))"
proof -
  let ?n = "length vs"
  let ?init = "init_state ?n s :: ('a, 'b) search_state"
  let ?st = "?init\<lparr>to_explore := [], explored := (explored ?init)[s := True]\<rparr>"
  let ?P = "\<lambda>u::nat. [s]"
  have ne: "to_explore ?init \<noteq> []" and pop: "heappop (to_explore ?init) = ((0, s), [])"
    and inrange: "\<not> length (explored ?init) \<le> s" and nexp: "\<not> explored ?init ! s"
    using s by (simp_all add: init_state_def heappop_def)
  have w: "walk_from_to vs s s [s]" using s by (simp add: walk_from_to_def)
  have opt: "walk_cost cf f [s] \<le> walk_cost cf f q" if "walk_from_to vs s s q" for q
    using walk_cost_nonneg[OF nn, of q] that by (simp add: walk_from_to_def)
  show ?thesis
  proof (cases "s = g")
    case True
    have "backtrack_indices s (prev ?init) = Some (Inr [s])"
      using s unfolding backtrack_indices_def
      by (subst backtrack_loop.simps, simp add: init_state_def, subst backtrack_loop.simps, simp)
    then have "dijkstras vs cf tc f s (Some g) =
        (case true_cost_of_path tc 0 [s] of
           Inl e \<Rightarrow> Some (Inl e)
         | Inr c \<Rightarrow> Some (Inr (trace ?init, (Finite (walk_cost cf f [s]), [s]))))"
      unfolding dijkstras_def using ne pop inrange nexp True s
      by (subst dijkstras_loop.simps) simp
    with w opt True show ?thesis unfolding search_outcome_def by blast
  next
    case False
    have "search_inv vs cf f s ?P {} ?st"
      using s w opt
      by (auto simp: search_inv_def explored_settled_def edges_relaxed_def frontier_sound_def
            heap_bounded_def init_state_def nth_list_update)
    moreover have "explored ?st ! s" using s by (simp add: init_state_def)
    ultimately obtain st' where
      r: "relax_neighbors cf f 0 s (vs ! s) ?st = Inr st'"
      and ex': "explored st' = explored ?st"
      and inv: "search_inv vs cf f s ?P ({} \<union> {(s, b) |b. b \<in> set (vs ! s)}) st'"
      using relax_neighbors_inv[OF wf nn s subset_refl, of ?st s ?P "{}"] by auto
    have "explored_edges vs st' = {(s, b) |b. b \<in> set (vs ! s)}"
      using s ex' by (auto simp: explored_edges_def init_state_def nth_list_update split: if_splits)
    with inv have inv': "search_inv vs cf f s ?P (explored_edges vs st') st'" by simp
    have gun: "\<not> (g < length vs \<and> explored st' ! g)"
      using False ex' by (simp add: init_state_def nth_list_update)
    have "dijkstras vs cf tc f s (Some g) = dijkstras_loop vs cf tc f (Some g) st'"
      unfolding dijkstras_def using ne pop inrange nexp False r
      by (subst dijkstras_loop.simps) simp
    with dijkstras_loop_correct[OF wf nn inv' refl gun] show ?thesis by simp
  qed
qed

lemma walk_enters:
  "is_walk vs q \<Longrightarrow> hd q \<noteq> last q \<Longrightarrow> \<exists>u. u < length vs \<and> last q \<in> set (vs ! u)"
proof (induction vs q rule: is_walk.induct)
  case (3 vs u v rest)
  show ?case
  proof (cases "rest = []")
    case True
    with "3.prems" show ?thesis by auto
  next
    case False
    show ?thesis
    proof (cases "v = last (v # rest)")
      case True
      with "3.prems" show ?thesis by auto
    next
      case nv: False
      with "3.IH" "3.prems" show ?thesis by auto
    qed
  qed
qed auto

lemma ex_well_formed: "well_formed ex_vertices"
  by (simp add: well_formed_def ex_vertices_def)

lemma ex_nonneg_costs: "nonneg_costs vs ex_cost_func ex_oracle"
  by (simp add: nonneg_costs_def ex_cost_func_def ex_oracle_def)





text \<open>
  Claim C2. On a well-formed graph, with a start vertex of the list and an evaluator that
  returns a non-negative cost on every edge, when no walk leads from the start to the
  goal the run of the shortest-path variant returns, as a value and not as an error, the
  infinite cost and the empty path.
\<close>

theorem dijkstras_no_path:
  assumes "vertices self = Some vs" "start self = Some s" "goal self = Some g"
    and "well_formed vs" "s < length vs" "nonneg_costs vs (cost_func self) f"
    and "\<forall>q. \<not> walk_from_to vs s g q"
  shows "\<exists>ep. snd (dijkstras_run_algorithm_on_f self f) = Some (Inr (ep, (Infinity, [])))"
proof -
  have run: "snd (dijkstras_run_algorithm_on_f self f)
               = dijkstras vs (cost_func self) (true_cost self) f s (Some g)"
    using assms(1-3) by (simp add: dijkstras_run_algorithm_on_f_def)
  from dijkstras_correct[OF assms(4,6,5), of "true_cost self" g] assms(7) run
  show ?thesis unfolding search_outcome_def by auto
qed

lemma ex_no_walk: "\<not> walk_from_to ex_vertices 0 4 q"
proof
  assume "walk_from_to ex_vertices 0 4 q"
  then have "is_walk ex_vertices q" "hd q \<noteq> last q" by (auto simp: walk_from_to_def)
  from walk_enters[OF this] obtain u where "u < length ex_vertices" "last q \<in> set (ex_vertices ! u)"
    by blast
  moreover have "last q = 4" using \<open>walk_from_to ex_vertices 0 4 q\<close> by (simp add: walk_from_to_def)
  ultimately show False
    by (auto simp: ex_vertices_def less_Suc_eq numeral_eq_Suc)
qed

theorem dijkstras_no_path_witness:
  "well_formed ex_vertices \<and> nonneg_costs ex_vertices (cost_func ex_params_no_path) ex_oracle
   \<and> snd (dijkstras_run_algorithm_on_f ex_params_no_path ex_oracle)
       = Some (Inr (\<lparr>exe_x = [(0, 1), (0, 2), (2, 1), (2, 3), (1, 3)], exe_y = [4, 1, 2, 5, 1]\<rparr>,
                    Infinity, []))"
proof -
  have h: "vertices ex_params_no_path = Some ex_vertices" "start ex_params_no_path = Some 0"
    "goal ex_params_no_path = Some 4" "(0::nat) < length ex_vertices"
    by (simp_all add: ex_params_no_path_def ex_params_def ex_vertices_def)
  have nn: "nonneg_costs ex_vertices (cost_func ex_params_no_path) ex_oracle"
    by (simp add: ex_params_no_path_def ex_params_def ex_nonneg_costs)
  have nw: "\<forall>q. \<not> walk_from_to ex_vertices 0 4 q" using ex_no_walk by blast
  from dijkstras_no_path[OF h(1,2,3) ex_well_formed h(4) nn nw]
  obtain ep where
    r: "snd (dijkstras_run_algorithm_on_f ex_params_no_path ex_oracle) = Some (Inr (ep, (Infinity, [])))"
    by blast
  have "snd (dijkstras_run_algorithm_on_f ex_params_no_path ex_oracle)
       = Some (Inr (\<lparr>exe_x = [(0, 1), (0, 2), (2, 1), (2, 3), (1, 3)], exe_y = [4, 1, 2, 5, 1]\<rparr>,
                    Infinity, []))"
    using r by code_simp
  with ex_well_formed nn show ?thesis by (intro conjI)
qed

end
